theory Spec2Isabelle
  imports Complex_Main
begin

section \<open>Values, errors and the Context\<close>

text \<open>
  Python floats are idealised as the reals: \<open>a * b\<close>, \<open>a + b\<close> and \<open>-1.0 * d\<close> are
  exact, rounding and overflow are not modelled. A Python value that an operation can hand
  back is a float, an int or a tuple of values; \<open>isinstance(c, float)\<close> holds for the
  first form only and \<open>isinstance(x, tuple)\<close> for the last only.
\<close>

datatype pyval = PFloat real | PInt int | PTuple "pyval list"

fun is_float :: "pyval \<Rightarrow> bool" where
  "is_float (PFloat x) = True"
| "is_float v = False"

fun is_tuple :: "pyval \<Rightarrow> bool" where
  "is_tuple (PTuple xs) = True"
| "is_tuple v = False"

text \<open>
  The exceptions of the model. \<open>AssertionError\<close> is what the \<open>assert\<close> of
  \<open>ScalarFunction.apply\<close> raises (the spec's ContractViolation), \<open>ValueError\<close> is what
  a tuple unpacking \<open>(a,) = ctx.saved_values\<close> of the wrong length raises (the spec's
  MissingSavedData), \<open>TypeError\<close> is a call with the wrong number of positional arguments
  or an addition of a non-number. \<open>ArityMismatch\<close> and \<open>UntrackedBackward\<close> are the two
  remaining defects of the spec's taxonomy; \<open>OperatorError\<close> stands for whatever a numeric
  primitive of \<open>operators\<close> raises.
\<close>

datatype error =
    AssertionError
  | ValueError
  | TypeError
  | ArityMismatch
  | UntrackedBackward
  | OperatorError

abbreviation ContractViolation :: error where
  "ContractViolation \<equiv> AssertionError"

abbreviation MissingSavedData :: error where
  "MissingSavedData \<equiv> ValueError"

text \<open>
  Modelled from the spec: the class \<open>Context\<close> of \<open>minitorch/autodiff.py\<close>, which is not
  among the sources. The spec gives it a tracking flag and an ordered sequence of saved raw
  values, empty until the first save; \<open>save\<close> overwrites the sequence and is a no-op when
  tracking is off. The flag is kept in the polarity in which \<open>apply\<close> passes it,
  \<open>Context(False)\<close>: the field is \<open>no_grad\<close>, and tracking is active when it is
  \<open>False\<close>.
\<close>

record Context =
  no_grad :: bool
  saved_values :: "real list"

definition Context_init :: "bool \<Rightarrow> Context" where
  "Context_init ng = \<lparr>no_grad = ng, saved_values = []\<rparr>"

definition save_for_backward :: "Context \<Rightarrow> real list \<Rightarrow> Context" where
  "save_for_backward c vs = (if no_grad c then c else c\<lparr>saved_values := vs\<rparr>)"

section \<open>The numeric primitives\<close>

text \<open>
  Modelled from the spec: the functions \<open>mul\<close>, \<open>neg\<close>, \<open>relu\<close>, \<open>relu_back\<close>,
  \<open>gt\<close>, \<open>lt\<close> and \<open>eq\<close> of \<open>minitorch/operators.py\<close>, which is not among the
  sources. The spec's catalogue gives them as \<open>a\<cdot>b\<close>, \<open>-a\<close>, \<open>max(0,a)\<close>,
  \<open>d if a>0 else 0\<close> and the three comparisons.
\<close>

definition mul :: "real \<Rightarrow> real \<Rightarrow> real" where
  "mul a b = a * b"

definition neg :: "real \<Rightarrow> real" where
  "neg a = - a"

definition relu :: "real \<Rightarrow> real" where
  "relu a = max 0 a"

definition relu_back :: "real \<Rightarrow> real \<Rightarrow> real" where
  "relu_back a d = (if a > 0 then d else 0)"

definition gt :: "real \<Rightarrow> real \<Rightarrow> bool" where
  "gt a b = (a > b)"

definition lt :: "real \<Rightarrow> real \<Rightarrow> bool" where
  "lt a b = (a < b)"

definition eq :: "real \<Rightarrow> real \<Rightarrow> bool" where
  "eq a b = (a = b)"

text \<open>Python's \<open>float(x)\<close> of a comparison result: 1.0 when it holds, 0.0 otherwise.\<close>

definition float :: "bool \<Rightarrow> real" where
  "float b = (if b then 1 else 0)"

text \<open>
  The remaining primitives of \<open>operators\<close> (\<open>log\<close>, \<open>log_back\<close>, \<open>inv\<close>,
  \<open>inv_back\<close>, \<open>sigmoid\<close>, \<open>exp\<close>) are parameters of the model: each is a function of
  raw numbers that returns a number, or \<open>None\<close> where it raises (a division by zero, a
  logarithm outside its domain); the caller then raises \<open>OperatorError\<close>.
\<close>

record operators =
  log_fn :: "real \<Rightarrow> real option"
  log_back :: "real \<Rightarrow> real \<Rightarrow> real option"
  inv_fn :: "real \<Rightarrow> real option"
  inv_back :: "real \<Rightarrow> real \<Rightarrow> real option"
  sigmoid :: "real \<Rightarrow> real option"
  exp_fn :: "real \<Rightarrow> real option"

section \<open>ScalarFunction and the catalogue of operations\<close>

text \<open>
  A subclass of \<open>ScalarFunction\<close> bundles a \<open>forward\<close> and a \<open>backward\<close>. \<open>forward\<close>
  receives the context and the raw operands, may save values in the context and returns a
  value; \<open>backward\<close> receives the context and the output derivative. Either may raise.
\<close>

record ScalarFunction =
  forward :: "Context \<Rightarrow> real list \<Rightarrow> error + (pyval \<times> Context)"
  backward :: "Context \<Rightarrow> real \<Rightarrow> error + pyval"

fun wrap_tuple :: "pyval \<Rightarrow> pyval" where
  "wrap_tuple (PTuple xs) = PTuple xs"
| "wrap_tuple x = PTuple [x]"

definition cls_backward :: "ScalarFunction \<Rightarrow> Context \<Rightarrow> real \<Rightarrow> error + pyval" where
  "cls_backward cls c d_out =
     (case backward cls c d_out of Inl e \<Rightarrow> Inl e | Inr r \<Rightarrow> Inr (wrap_tuple r))"

definition cls_forward :: "ScalarFunction \<Rightarrow> Context \<Rightarrow> real list \<Rightarrow> error + (pyval \<times> Context)" where
  "cls_forward cls c inps = forward cls c inps"

subsection \<open>Add\<close>

fun Add_forward :: "Context \<Rightarrow> real list \<Rightarrow> error + (pyval \<times> Context)" where
  "Add_forward c [a, b] = Inr (PFloat (a + b), c)"
| "Add_forward c inps = Inl TypeError"

definition Add_backward :: "Context \<Rightarrow> real \<Rightarrow> error + pyval" where
  "Add_backward c d_output = Inr (PTuple [PFloat d_output, PFloat d_output])"

definition Add :: ScalarFunction where
  "Add = \<lparr>forward = Add_forward, backward = Add_backward\<rparr>"

subsection \<open>Log\<close>

fun Log_forward :: "operators \<Rightarrow> Context \<Rightarrow> real list \<Rightarrow> error + (pyval \<times> Context)" where
  "Log_forward ops c [a] =
     (let c' = save_for_backward c [a]
      in case log_fn ops a of
           None \<Rightarrow> Inl OperatorError
         | Some r \<Rightarrow> Inr (PFloat r, c'))"
| "Log_forward ops c inps = Inl TypeError"

definition Log_backward :: "operators \<Rightarrow> Context \<Rightarrow> real \<Rightarrow> error + pyval" where
  "Log_backward ops c d_output =
     (case saved_values c of
        [a] \<Rightarrow> (case log_back ops a d_output of
                 None \<Rightarrow> Inl OperatorError
               | Some r \<Rightarrow> Inr (PFloat r))
      | _ \<Rightarrow> Inl ValueError)"

definition Log :: "operators \<Rightarrow> ScalarFunction" where
  "Log ops = \<lparr>forward = Log_forward ops, backward = Log_backward ops\<rparr>"

subsection \<open>Mul\<close>

fun Mul_forward :: "Context \<Rightarrow> real list \<Rightarrow> error + (pyval \<times> Context)" where
  "Mul_forward c [a, b] = Inr (PFloat (mul a b), save_for_backward c [a, b])"
| "Mul_forward c inps = Inl TypeError"

definition Mul_backward :: "Context \<Rightarrow> real \<Rightarrow> error + pyval" where
  "Mul_backward c d_output =
     (case saved_values c of
        [a, b] \<Rightarrow> Inr (PTuple [PFloat (b * d_output), PFloat (a * d_output)])
      | _ \<Rightarrow> Inl ValueError)"

definition Mul :: ScalarFunction where
  "Mul = \<lparr>forward = Mul_forward, backward = Mul_backward\<rparr>"

subsection \<open>Inv\<close>

fun Inv_forward :: "operators \<Rightarrow> Context \<Rightarrow> real list \<Rightarrow> error + (pyval \<times> Context)" where
  "Inv_forward ops c [a] =
     (let c' = save_for_backward c [a]
      in case inv_fn ops a of
           None \<Rightarrow> Inl OperatorError
         | Some r \<Rightarrow> Inr (PFloat r, c'))"
| "Inv_forward ops c inps = Inl TypeError"

definition Inv_backward :: "operators \<Rightarrow> Context \<Rightarrow> real \<Rightarrow> error + pyval" where
  "Inv_backward ops c d_output =
     (case saved_values c of
        [a] \<Rightarrow> (case inv_back ops a d_output of
                 None \<Rightarrow> Inl OperatorError
               | Some r \<Rightarrow> Inr (PFloat r))
      | _ \<Rightarrow> Inl ValueError)"

definition Inv :: "operators \<Rightarrow> ScalarFunction" where
  "Inv ops = \<lparr>forward = Inv_forward ops, backward = Inv_backward ops\<rparr>"

subsection \<open>Neg\<close>

fun Neg_forward :: "Context \<Rightarrow> real list \<Rightarrow> error + (pyval \<times> Context)" where
  "Neg_forward c [a] = Inr (PFloat (neg a), save_for_backward c [a])"
| "Neg_forward c inps = Inl TypeError"

definition Neg_backward :: "Context \<Rightarrow> real \<Rightarrow> error + pyval" where
  "Neg_backward c d_output =
     (case saved_values c of
        [a] \<Rightarrow> Inr (PFloat (- 1 * d_output))
      | _ \<Rightarrow> Inl ValueError)"

definition Neg :: ScalarFunction where
  "Neg = \<lparr>forward = Neg_forward, backward = Neg_backward\<rparr>"

subsection \<open>Sigmoid\<close>

fun Sigmoid_forward :: "operators \<Rightarrow> Context \<Rightarrow> real list \<Rightarrow> error + (pyval \<times> Context)" where
  "Sigmoid_forward ops c [a] =
     (let c' = save_for_backward c [a]
      in case sigmoid ops a of
           None \<Rightarrow> Inl OperatorError
         | Some r \<Rightarrow> Inr (PFloat r, c'))"
| "Sigmoid_forward ops c inps = Inl TypeError"

definition Sigmoid_backward :: "operators \<Rightarrow> Context \<Rightarrow> real \<Rightarrow> error + pyval" where
  "Sigmoid_backward ops c d_output =
     (case saved_values c of
        [a] \<Rightarrow>
          (case sigmoid ops a of
             None \<Rightarrow> Inl OperatorError
           | Some s \<Rightarrow> Inr (PFloat (s * (1 - s) * d_output)))
      | _ \<Rightarrow> Inl ValueError)"

definition Sigmoid :: "operators \<Rightarrow> ScalarFunction" where
  "Sigmoid ops = \<lparr>forward = Sigmoid_forward ops, backward = Sigmoid_backward ops\<rparr>"

subsection \<open>ReLU\<close>

fun ReLU_forward :: "Context \<Rightarrow> real list \<Rightarrow> error + (pyval \<times> Context)" where
  "ReLU_forward c [a] = Inr (PFloat (relu a), save_for_backward c [a])"
| "ReLU_forward c inps = Inl TypeError"

definition ReLU_backward :: "Context \<Rightarrow> real \<Rightarrow> error + pyval" where
  "ReLU_backward c d_output =
     (case saved_values c of
        [a] \<Rightarrow> Inr (PFloat (relu_back a d_output))
      | _ \<Rightarrow> Inl ValueError)"

definition ReLU :: ScalarFunction where
  "ReLU = \<lparr>forward = ReLU_forward, backward = ReLU_backward\<rparr>"

subsection \<open>Exp\<close>

fun Exp_forward :: "operators \<Rightarrow> Context \<Rightarrow> real list \<Rightarrow> error + (pyval \<times> Context)" where
  "Exp_forward ops c [a] =
     (let c' = save_for_backward c [a]
      in case exp_fn ops a of
           None \<Rightarrow> Inl OperatorError
         | Some r \<Rightarrow> Inr (PFloat r, c'))"
| "Exp_forward ops c inps = Inl TypeError"

definition Exp_backward :: "operators \<Rightarrow> Context \<Rightarrow> real \<Rightarrow> error + pyval" where
  "Exp_backward ops c d_output =
     (case saved_values c of
        [a] \<Rightarrow> (case exp_fn ops a of
                 None \<Rightarrow> Inl OperatorError
               | Some r \<Rightarrow> Inr (PFloat (r * d_output)))
      | _ \<Rightarrow> Inl ValueError)"

definition Exp :: "operators \<Rightarrow> ScalarFunction" where
  "Exp ops = \<lparr>forward = Exp_forward ops, backward = Exp_backward ops\<rparr>"

subsection \<open>GT, LT, EQ\<close>

fun GT_forward :: "Context \<Rightarrow> real list \<Rightarrow> error + (pyval \<times> Context)" where
  "GT_forward c [a, b] = Inr (PFloat (float (gt a b)), save_for_backward c [a, b])"
| "GT_forward c inps = Inl TypeError"

definition GT_backward :: "Context \<Rightarrow> real \<Rightarrow> error + pyval" where
  "GT_backward c d_output = Inr (PTuple [PFloat 0, PFloat 0])"

definition GT :: ScalarFunction where
  "GT = \<lparr>forward = GT_forward, backward = GT_backward\<rparr>"

fun LT_forward :: "Context \<Rightarrow> real list \<Rightarrow> error + (pyval \<times> Context)" where
  "LT_forward c [a, b] = Inr (PFloat (float (lt a b)), save_for_backward c [a, b])"
| "LT_forward c inps = Inl TypeError"

definition LT_backward :: "Context \<Rightarrow> real \<Rightarrow> error + pyval" where
  "LT_backward c d_output = Inr (PTuple [PFloat 0, PFloat 0])"

definition LT :: ScalarFunction where
  "LT = \<lparr>forward = LT_forward, backward = LT_backward\<rparr>"

fun EQ_forward :: "Context \<Rightarrow> real list \<Rightarrow> error + (pyval \<times> Context)" where
  "EQ_forward c [a, b] = Inr (PFloat (float (eq a b)), save_for_backward c [a, b])"
| "EQ_forward c inps = Inl TypeError"

definition EQ_backward :: "Context \<Rightarrow> real \<Rightarrow> error + pyval" where
  "EQ_backward c d_output = Inr (PTuple [PFloat 0, PFloat 0])"

definition EQ :: ScalarFunction where
  "EQ = \<lparr>forward = EQ_forward, backward = EQ_backward\<rparr>"

text \<open>The eleven operations the file defines, in the order of the file.\<close>

definition catalogue :: "operators \<Rightarrow> ScalarFunction list" where
  "catalogue ops =
     [Add, Log ops, Mul, Inv ops, Neg, Sigmoid ops, ReLU, Exp ops, GT, LT, EQ]"

section \<open>Scalars and apply\<close>

text \<open>
  Modelled from the spec: the classes \<open>Scalar\<close> and \<open>ScalarHistory\<close> of
  \<open>minitorch/scalar.py\<close>, which is not among the sources. A node has an identifier taken
  from a process-wide counter that only grows, a raw payload and an optional history
  (absent for a leaf); a history records the operation, its context and the operand nodes
  in call order. Histories are immutable, so a node is a value that contains its operands;
  a node shared by several histories occurs in each of them, and is recognised by its
  identifier. The one field that is mutated after construction, the gradient accumulator,
  lives outside the node, in a map from identifiers to accumulated derivatives.
\<close>

datatype 'a ScalarHistory =
  ScalarHistory (last_fn: ScalarFunction) (ctx: Context) (inputs: "'a list")

datatype Scalar =
  Scalar (unique_id: nat) (data: real) (history: "Scalar ScalarHistory option")

text \<open>The constructor \<open>Scalar(v, back)\<close>: it increments the counter and takes its value.\<close>

definition new_Scalar :: "real \<Rightarrow> Scalar ScalarHistory option \<Rightarrow> nat \<Rightarrow> Scalar \<times> nat" where
  "new_Scalar v back var_count = (Scalar (var_count + 1) v back, var_count + 1)"

text \<open>
  An argument of \<open>apply\<close>: a raw number or an existing node. Raw numbers are floats;
  a raw Python int is not modelled.
\<close>

datatype ScalarLike = Raw real | Node Scalar

text \<open>
  The loop of \<open>apply\<close> over its arguments, with the two lists it appends to and the
  counter of identifiers.
\<close>

fun apply_loop :: "ScalarLike list \<Rightarrow> real list \<Rightarrow> Scalar list \<Rightarrow> nat
    \<Rightarrow> real list \<times> Scalar list \<times> nat" where
  "apply_loop [] raw_vals scalars vc = (raw_vals, scalars, vc)"
| "apply_loop (Node s # vals) raw_vals scalars vc =
     apply_loop vals (raw_vals @ [data s]) (scalars @ [s]) vc"
| "apply_loop (Raw v # vals) raw_vals scalars vc =
     (let (s, vc') = new_Scalar v None vc
      in apply_loop vals (raw_vals @ [v]) (scalars @ [s]) vc')"

text \<open>
  \<open>ScalarFunction.apply\<close>. The result is the new node or the exception, together with
  the counter of identifiers, which the leaves created for raw arguments have advanced
  also when the call raises.
\<close>

definition cls_apply :: "ScalarFunction \<Rightarrow> ScalarLike list \<Rightarrow> nat \<Rightarrow> (error + Scalar) \<times> nat" where
  "cls_apply cls vals var_count =
     (let (raw_vals, scalars, vc) = apply_loop vals [] [] var_count;
          c0 = Context_init False
      in case cls_forward cls c0 raw_vals of
           Inl e \<Rightarrow> (Inl e, vc)
         | Inr (c, c1) \<Rightarrow>
             (case c of
                PFloat x \<Rightarrow>
                  (let back = ScalarHistory cls c1 scalars;
                       (s, vc') = new_Scalar x (Some back) vc
                   in (Inr s, vc'))
              | _ \<Rightarrow> (Inl AssertionError, vc)))"

subsection \<open>What apply is to compute\<close>

text \<open>
  The description of \<open>apply\<close> in the spec, as functions of the argument list: the raw
  value of each argument, the operand node of each argument (an existing node itself, a raw
  number as a leaf with the next identifier) and the number of leaves created.
\<close>

fun raw_value :: "ScalarLike \<Rightarrow> real" where
  "raw_value (Raw v) = v"
| "raw_value (Node s) = data s"

fun is_Raw :: "ScalarLike \<Rightarrow> bool" where
  "is_Raw (Raw v) = True"
| "is_Raw (Node s) = False"

definition count_raw :: "ScalarLike list \<Rightarrow> nat" where
  "count_raw vals = length (filter is_Raw vals)"

fun operand_nodes :: "ScalarLike list \<Rightarrow> nat \<Rightarrow> Scalar list" where
  "operand_nodes [] vc = []"
| "operand_nodes (Node s # vals) vc = s # operand_nodes vals vc"
| "operand_nodes (Raw v # vals) vc = Scalar (vc + 1) v None # operand_nodes vals (vc + 1)"

section \<open>The backward engine\<close>

text \<open>
  Modelled from the spec: the backward engine of \<open>minitorch/autodiff.py\<close> and the
  methods of \<open>Scalar\<close> it calls, which are not among the sources. The spec's section 4.3
  gives the algorithm: discover every node reachable from the root through the parent links
  once, sort the discovered nodes by identifier in descending order, seed a buffer from
  identifiers to pending derivatives with the root's derivative, and process the nodes in
  that order. A node without an entry in the buffer is skipped; a leaf adds its entry to its
  gradient accumulator; a computed node calls \<open>_backward\<close> on its operation, context
  and entry and adds each local derivative to the entry of the parent at the same position.
  A history whose context has tracking off is the spec's UntrackedBackward defect, a
  backward result of the wrong length its ArityMismatch defect.
\<close>

definition parents :: "Scalar \<Rightarrow> Scalar list" where
  "parents n = (case history n of None \<Rightarrow> [] | Some h \<Rightarrow> inputs h)"

fun nodes :: "Scalar \<Rightarrow> Scalar list" where
  "nodes (Scalar i v None) = [Scalar i v None]"
| "nodes (Scalar i v (Some (ScalarHistory f c ps))) =
     Scalar i v (Some (ScalarHistory f c ps)) # concat (map nodes ps)"

definition add_node :: "Scalar \<Rightarrow> Scalar list \<Rightarrow> Scalar list" where
  "add_node n seen = (if unique_id n \<in> set (map unique_id seen) then seen else seen @ [n])"

definition discover :: "Scalar \<Rightarrow> Scalar list" where
  "discover variable = fold add_node (nodes variable) []"

definition sort_descending :: "Scalar \<Rightarrow> Scalar list" where
  "sort_descending variable = rev (sort_key unique_id (discover variable))"

fun as_number :: "pyval \<Rightarrow> error + real" where
  "as_number (PFloat x) = Inr x"
| "as_number (PInt k) = Inr (of_int k)"
| "as_number (PTuple xs) = Inl TypeError"

fun as_numbers :: "pyval list \<Rightarrow> error + real list" where
  "as_numbers [] = Inr []"
| "as_numbers (v # vs) =
     (case as_number v of
        Inl e \<Rightarrow> Inl e
      | Inr x \<Rightarrow> (case as_numbers vs of Inl e \<Rightarrow> Inl e | Inr xs \<Rightarrow> Inr (x # xs)))"

definition chain_rule :: "Scalar ScalarHistory \<Rightarrow> real \<Rightarrow> error + (Scalar \<times> real) list" where
  "chain_rule h d =
     (if no_grad (ctx h) then Inl UntrackedBackward
      else case cls_backward (last_fn h) (ctx h) d of
             Inl e \<Rightarrow> Inl e
           | Inr (PTuple ls) \<Rightarrow>
               if length ls \<noteq> length (inputs h) then Inl ArityMismatch
               else (case as_numbers ls of
                       Inl e \<Rightarrow> Inl e
                     | Inr xs \<Rightarrow> Inr (zip (inputs h) xs))
           | Inr _ \<Rightarrow> Inl TypeError)"

definition accumulate_derivative :: "(nat \<rightharpoonup> real) \<Rightarrow> nat \<Rightarrow> real \<Rightarrow> (nat \<rightharpoonup> real)" where
  "accumulate_derivative dv i d = dv(i \<mapsto> (case dv i of None \<Rightarrow> 0 | Some g \<Rightarrow> g) + d)"

definition add_to_buffer :: "Scalar \<times> real \<Rightarrow> (nat \<rightharpoonup> real) \<Rightarrow> (nat \<rightharpoonup> real)" where
  "add_to_buffer pl buf =
     buf(unique_id (fst pl) \<mapsto>
           (case buf (unique_id (fst pl)) of None \<Rightarrow> 0 | Some g \<Rightarrow> g) + snd pl)"

fun propagate :: "Scalar list \<Rightarrow> (nat \<rightharpoonup> real) \<Rightarrow> (nat \<rightharpoonup> real) \<Rightarrow> error + (nat \<rightharpoonup> real)" where
  "propagate [] buf dv = Inr dv"
| "propagate (n # ns) buf dv =
     (case buf (unique_id n) of
        None \<Rightarrow> propagate ns buf dv
      | Some d \<Rightarrow>
          (case history n of
             None \<Rightarrow>
               propagate ns (buf(unique_id n := None))
                 (accumulate_derivative dv (unique_id n) d)
           | Some h \<Rightarrow>
               (case chain_rule h d of
                  Inl e \<Rightarrow> Inl e
                | Inr pls \<Rightarrow>
                    propagate ns (fold add_to_buffer pls (buf(unique_id n := None))) dv)))"

definition backpropagate :: "Scalar \<Rightarrow> real \<Rightarrow> (nat \<rightharpoonup> real) \<Rightarrow> error + (nat \<rightharpoonup> real)" where
  "backpropagate variable deriv dv =
     propagate (sort_descending variable) [unique_id variable \<mapsto> deriv] dv"

section \<open>What a graph computes\<close>

text \<open>
  The function of one leaf that a graph stands for: \<open>reval x t n\<close> evaluates the node
  \<open>n\<close> again with the payload of the leaf \<open>x\<close> replaced by \<open>t\<close>, calling each
  operation's forward on a fresh context. \<open>tangent x n\<close> is the forward-mode derivative
  of the node with respect to that leaf, from the local derivatives that the operations'
  backward rules return for the output derivative 1.
\<close>

definition result :: "ScalarFunction \<Rightarrow> real list \<Rightarrow> real" where
  "result f xs = (case forward f (Context_init False) xs of Inr (PFloat y, c) \<Rightarrow> y | _ \<Rightarrow> 0)"

fun reval :: "nat \<Rightarrow> real \<Rightarrow> Scalar \<Rightarrow> real" where
  "reval x t (Scalar i v None) = (if i = x then t else v)"
| "reval x t (Scalar i v (Some (ScalarHistory f c ps))) = result f (map (reval x t) ps)"

definition local_grads :: "ScalarFunction \<Rightarrow> Context \<Rightarrow> real list" where
  "local_grads f c =
     (case cls_backward f c 1 of
        Inr (PTuple ls) \<Rightarrow> (case as_numbers ls of Inr gs \<Rightarrow> gs | Inl e \<Rightarrow> [])
      | _ \<Rightarrow> [])"

fun tangent :: "nat \<Rightarrow> Scalar \<Rightarrow> real" where
  "tangent x (Scalar i v None) = (if i = x then 1 else 0)"
| "tangent x (Scalar i v (Some (ScalarHistory f c ps))) =
     (\<Sum>gc\<leftarrow>zip (local_grads f c) (map (tangent x) ps). fst gc * snd gc)"

text \<open>
  The graphs that \<open>apply\<close> builds: an identifier names one node (\<open>consistent\<close>), the
  identifier of a node exceeds those of its operands (\<open>ordered\<close>), and each computed
  node holds the result and the context of its operation's forward on the payloads of its
  operands, with tracking on and with a backward rule that is the derivative of forward
  there (\<open>node_ok\<close>). \<open>derivative_rule f xs c gs\<close> says that backward on the context
  \<open>c\<close> returns the local derivatives \<open>gs\<close> scaled by the output derivative, and that
  forward composed with curves through \<open>xs\<close> has the derivative the chain rule gives
  from \<open>gs\<close>.
\<close>

definition consistent :: "Scalar \<Rightarrow> bool" where
  "consistent variable \<longleftrightarrow>
     (\<forall>n \<in> set (nodes variable). \<forall>m \<in> set (nodes variable).
        unique_id n = unique_id m \<longrightarrow> n = m)"

definition ordered :: "Scalar \<Rightarrow> bool" where
  "ordered variable \<longleftrightarrow>
     (\<forall>n \<in> set (nodes variable). \<forall>p \<in> set (parents n). unique_id p < unique_id n)"

definition derivative_rule :: "ScalarFunction \<Rightarrow> real list \<Rightarrow> Context \<Rightarrow> real list \<Rightarrow> bool" where
  "derivative_rule f xs c gs \<longleftrightarrow>
     length gs = length xs
     \<and> (\<forall>d. cls_backward f c d = Inr (PTuple (map (\<lambda>g. PFloat (g * d)) gs)))
     \<and> (\<forall>cds t0.
          length cds = length xs
          \<and> (\<forall>j<length xs. fst (cds ! j) t0 = xs ! j
                \<and> (fst (cds ! j) has_real_derivative snd (cds ! j)) (at t0))
          \<longrightarrow> ((\<lambda>t. result f (map (\<lambda>cd. fst cd t) cds))
                 has_real_derivative (\<Sum>gc\<leftarrow>zip gs (map snd cds). fst gc * snd gc)) (at t0))"

definition node_ok :: "Scalar \<Rightarrow> bool" where
  "node_ok n \<longleftrightarrow>
     (case history n of
        None \<Rightarrow> True
      | Some h \<Rightarrow>
          forward (last_fn h) (Context_init False) (map data (inputs h))
            = Inr (PFloat (data n), ctx h)
          \<and> \<not> no_grad (ctx h)
          \<and> derivative_rule (last_fn h) (map data (inputs h)) (ctx h)
               (local_grads (last_fn h) (ctx h)))"

text \<open>
  The quantities of the engine's invariant: the pending derivative of an identifier (0
  without an entry), the sum of the pending derivatives of a list of nodes weighted by a
  function of the nodes, and the condition on a computed node that its chain rule returns
  local derivatives linear in the output derivative whose weighted sum is the node's
  weight.
\<close>

definition bufval :: "(nat \<rightharpoonup> real) \<Rightarrow> nat \<Rightarrow> real" where
  "bufval buf i = (case buf i of None \<Rightarrow> 0 | Some g \<Rightarrow> g)"

definition wsum :: "(Scalar \<Rightarrow> real) \<Rightarrow> (nat \<rightharpoonup> real) \<Rightarrow> Scalar list \<Rightarrow> real" where
  "wsum T buf ns = (\<Sum>n\<leftarrow>ns. bufval buf (unique_id n) * T n)"

definition step_ok :: "(Scalar \<Rightarrow> real) \<Rightarrow> Scalar \<Rightarrow> bool" where
  "step_ok T n \<longleftrightarrow>
     (case history n of
        None \<Rightarrow> True
      | Some h \<Rightarrow>
          (\<exists>gs. length gs = length (inputs h)
             \<and> (\<forall>d. chain_rule h d = Inr (zip (inputs h) (map (\<lambda>g. g * d) gs)))
             \<and> T n = (\<Sum>pg\<leftarrow>zip (inputs h) gs. snd pg * T (fst pg))))"

text \<open>
  The graphs that calls of \<open>apply\<close> on operations of the catalogue build: every computed
  node is the result of such a call (\<open>apply_built\<close>). A node is tracked when its history's
  context has tracking on and its operation's backward does not raise UntrackedBackward.
\<close>

definition apply_built :: "operators \<Rightarrow> Scalar \<Rightarrow> bool" where
  "apply_built ops v \<longleftrightarrow>
     (\<forall>n\<in>set (nodes v).
        case history n of
          None \<Rightarrow> True
        | Some h \<Rightarrow>
            last_fn h \<in> set (catalogue ops)
            \<and> (\<exists>vals vc vc'. cls_apply (last_fn h) vals vc = (Inr n, vc')))"

definition tracked_node :: "Scalar \<Rightarrow> bool" where
  "tracked_node n \<longleftrightarrow>
     (case history n of
        None \<Rightarrow> True
      | Some h \<Rightarrow> \<not> no_grad (ctx h)
          \<and> (\<forall>d. cls_backward (last_fn h) (ctx h) d \<noteq> Inl UntrackedBackward))"


section \<open>Properties of the dispatch layer\<close>

lemma apply_loop_eq:
  "apply_loop vals raw_vals scalars vc =
     (raw_vals @ map raw_value vals, scalars @ operand_nodes vals vc, vc + count_raw vals)"
  by (induction vals raw_vals scalars vc rule: apply_loop.induct)
     (simp_all add: count_raw_def new_Scalar_def)

lemma length_operand_nodes: "length (operand_nodes vals vc) = length vals"
  by (induction vals vc rule: operand_nodes.induct) simp_all

lemma operand_nodes_nth:
  "i < length vals \<Longrightarrow>
     (case vals ! i of
        Node s \<Rightarrow> operand_nodes vals vc ! i = s
      | Raw v \<Rightarrow> operand_nodes vals vc ! i = Scalar (vc + count_raw (take (Suc i) vals)) v None)"
proof (induction vals vc arbitrary: i rule: operand_nodes.induct)
  case (1 vc)
  then show ?case by simp
next
  case (2 s vals vc)
  show ?case
  proof (cases i)
    case 0
    then show ?thesis by simp
  next
    case (Suc j)
    with 2 have "j < length vals" by simp
    from 2(1)[OF this, of ] Suc show ?thesis
      by (simp add: count_raw_def split: ScalarLike.splits)
  qed
next
  case (3 v vals vc)
  show ?case
  proof (cases i)
    case 0
    then show ?thesis by (simp add: count_raw_def)
  next
    case (Suc j)
    with 3 have "j < length vals" by simp
    from 3(1)[OF this] Suc show ?thesis
      by (simp add: count_raw_def split: ScalarLike.splits)
  qed
qed

lemma count_raw_take_bounds:
  "i < length vals \<Longrightarrow> is_Raw (vals ! i) \<Longrightarrow>
     0 < count_raw (take (Suc i) vals) \<and> count_raw (take (Suc i) vals) \<le> count_raw vals"
proof -
  assume a: "i < length vals" "is_Raw (vals ! i)"
  have "vals ! i \<in> set (filter is_Raw (take (Suc i) vals))"
    using a by (auto simp: in_set_conv_nth intro!: exI[of _ i])
  then have "0 < count_raw (take (Suc i) vals)"
    unfolding count_raw_def by (metis length_pos_if_in_set)
  moreover have "count_raw (take (Suc i) vals) \<le> count_raw vals"
  proof -
    have "filter is_Raw vals = filter is_Raw (take (Suc i) vals) @ filter is_Raw (drop (Suc i) vals)"
      by (metis append_take_drop_id filter_append)
    then show ?thesis unfolding count_raw_def by (metis le_add1 length_append)
  qed
  ultimately show ?thesis by simp
qed

lemma cls_apply_eq:
  "cls_apply cls vals vc =
     (case forward cls (Context_init False) (map raw_value vals) of
        Inl e \<Rightarrow> (Inl e, vc + count_raw vals)
      | Inr (PFloat x, c1) \<Rightarrow>
          (Inr (Scalar (vc + count_raw vals + 1) x
                 (Some (ScalarHistory cls c1 (operand_nodes vals vc)))),
           vc + count_raw vals + 1)
      | Inr (_, c1) \<Rightarrow> (Inl AssertionError, vc + count_raw vals))"
  by (simp add: cls_apply_def apply_loop_eq cls_forward_def new_Scalar_def
      split: sum.splits pyval.splits prod.splits)

lemmas catalogue_defs =
  Add_def Log_def Mul_def Inv_def Neg_def Sigmoid_def ReLU_def Exp_def GT_def LT_def EQ_def

lemmas backward_defs =
  Add_backward_def Log_backward_def Mul_backward_def Inv_backward_def Neg_backward_def
  Sigmoid_backward_def ReLU_backward_def Exp_backward_def GT_backward_def LT_backward_def
  EQ_backward_def

text \<open>
  Claim C10. \<open>wrap_tuple\<close> returns a tuple unchanged and any other value as the
  one-element tuple holding it, so applying it twice is applying it once; and for every
  operation, context and output derivative, \<open>_backward\<close> either propagates the exception
  of the operation's \<open>backward\<close> or returns a tuple, the normalised result of
  \<open>backward\<close>.
\<close>

theorem wrap_tuple_normalizes:
  "wrap_tuple x = (if is_tuple x then x else PTuple [x])
   \<and> wrap_tuple (wrap_tuple x) = wrap_tuple x
   \<and> ((\<exists>e. backward cls c d = Inl e \<and> cls_backward cls c d = Inl e)
        \<or> (\<exists>r xs. backward cls c d = Inr r \<and> cls_backward cls c d = Inr (PTuple xs)
              \<and> PTuple xs = wrap_tuple r))"
proof -
  have 1: "wrap_tuple x = (if is_tuple x then x else PTuple [x])"
    by (cases x) simp_all
  have 2: "wrap_tuple (wrap_tuple x) = wrap_tuple x"
    by (cases x) simp_all
  have 3: "\<exists>xs. wrap_tuple r = PTuple xs" for r
    by (cases r) simp_all
  have 4: "(\<exists>e. backward cls c d = Inl e \<and> cls_backward cls c d = Inl e)
        \<or> (\<exists>r xs. backward cls c d = Inr r \<and> cls_backward cls c d = Inr (PTuple xs)
              \<and> PTuple xs = wrap_tuple r)"
  proof (cases "backward cls c d")
    case (Inl e)
    then show ?thesis by (simp add: cls_backward_def)
  next
    case (Inr r)
    obtain xs where "wrap_tuple r = PTuple xs" using 3 by blast
    with Inr show ?thesis by (simp add: cls_backward_def)
  qed
  from 1 2 4 show ?thesis by blast
qed

text \<open>
  Claim C6. For all inputs \<open>a\<close>, \<open>b\<close> the forward of \<open>GT\<close>, \<open>LT\<close> and \<open>EQ\<close>
  returns 1.0 when the comparison holds and 0.0 otherwise (saving \<open>a\<close>, \<open>b\<close>), and for
  every context and every output derivative their backward returns the pair (0.0, 0.0),
  directly and through \<open>_backward\<close>.
\<close>

theorem comparisons_stop_gradient:
  "forward GT c [a, b] = Inr (PFloat (if a > b then 1 else 0), save_for_backward c [a, b])
   \<and> forward LT c [a, b] = Inr (PFloat (if a < b then 1 else 0), save_for_backward c [a, b])
   \<and> forward EQ c [a, b] = Inr (PFloat (if a = b then 1 else 0), save_for_backward c [a, b])
   \<and> backward GT c' d = Inr (PTuple [PFloat 0, PFloat 0])
   \<and> backward LT c' d = Inr (PTuple [PFloat 0, PFloat 0])
   \<and> backward EQ c' d = Inr (PTuple [PFloat 0, PFloat 0])
   \<and> cls_backward GT c' d = Inr (PTuple [PFloat 0, PFloat 0])
   \<and> cls_backward LT c' d = Inr (PTuple [PFloat 0, PFloat 0])
   \<and> cls_backward EQ c' d = Inr (PTuple [PFloat 0, PFloat 0])"
  by (simp add: GT_def LT_def EQ_def GT_backward_def LT_backward_def EQ_backward_def
      cls_backward_def float_def gt_def lt_def eq_def)

text \<open>
  Claim C9. \<open>ReLU.forward\<close> returns \<open>max(0, a)\<close> and saves \<open>a\<close>; \<open>ReLU.backward\<close>
  with \<open>a\<close> saved returns \<open>d\<close> when \<open>a > 0\<close> and 0 otherwise. On the context that
  \<open>apply\<close> creates, forward of -1.0 is 0.0 with backward derivative 0.0, and forward of
  1.0 is 1.0 with backward derivative \<open>d\<close>.
\<close>

theorem ReLU_boundary:
  "forward ReLU c [a] = Inr (PFloat (max 0 a), save_for_backward c [a])
   \<and> forward ReLU (Context_init False) [a]
       = Inr (PFloat (max 0 a), \<lparr>no_grad = False, saved_values = [a]\<rparr>)
   \<and> backward ReLU (c\<lparr>saved_values := [a]\<rparr>) d = Inr (PFloat (if a > 0 then d else 0))
   \<and> forward ReLU (Context_init False) [- 1]
       = Inr (PFloat 0, \<lparr>no_grad = False, saved_values = [- 1]\<rparr>)
   \<and> backward ReLU \<lparr>no_grad = False, saved_values = [- 1]\<rparr> d = Inr (PFloat 0)
   \<and> forward ReLU (Context_init False) [1]
       = Inr (PFloat 1, \<lparr>no_grad = False, saved_values = [1]\<rparr>)
   \<and> backward ReLU \<lparr>no_grad = False, saved_values = [1]\<rparr> d = Inr (PFloat d)"
  by (simp add: ReLU_def ReLU_backward_def relu_def relu_back_def save_for_backward_def
      Context_init_def)

text \<open>
  Claim C7. For each of \<open>Log\<close>, \<open>Mul\<close>, \<open>Inv\<close>, \<open>Neg\<close>, \<open>Sigmoid\<close>, \<open>ReLU\<close>
  and \<open>Exp\<close>, backward on a context whose saved sequence is empty raises the unpacking
  error (MissingSavedData) for every output derivative, directly and through
  \<open>_backward\<close>; no value is returned.
\<close>

theorem backward_without_saved_values:
  assumes "saved_values c = []"
    and "cls \<in> set [Log ops, Mul, Inv ops, Neg, Sigmoid ops, ReLU, Exp ops]"
  shows "backward cls c d = Inl MissingSavedData \<and> cls_backward cls c d = Inl MissingSavedData"
  using assms by (auto simp: catalogue_defs backward_defs cls_backward_def)

theorem backward_without_saved_values_witness:
  "saved_values (Context_init False) = []
   \<and> Mul \<in> set [Log \<lparr>log_fn = Some, log_back = (\<lambda>a d. Some d), inv_fn = Some,
                      inv_back = (\<lambda>a d. Some d), sigmoid = Some, exp_fn = Some\<rparr>,
                 Mul,
                 Inv \<lparr>log_fn = Some, log_back = (\<lambda>a d. Some d), inv_fn = Some,
                      inv_back = (\<lambda>a d. Some d), sigmoid = Some, exp_fn = Some\<rparr>,
                 Neg,
                 Sigmoid \<lparr>log_fn = Some, log_back = (\<lambda>a d. Some d), inv_fn = Some,
                      inv_back = (\<lambda>a d. Some d), sigmoid = Some, exp_fn = Some\<rparr>,
                 ReLU,
                 Exp \<lparr>log_fn = Some, log_back = (\<lambda>a d. Some d), inv_fn = Some,
                      inv_back = (\<lambda>a d. Some d), sigmoid = Some, exp_fn = Some\<rparr>]
   \<and> backward Mul (Context_init False) 1 = Inl MissingSavedData
   \<and> cls_backward Mul (Context_init False) 1 = Inl MissingSavedData"
  using backward_without_saved_values [of "Context_init False" Mul
      "\<lparr>log_fn = Some, log_back = (\<lambda>a d. Some d), inv_fn = Some,
        inv_back = (\<lambda>a d. Some d), sigmoid = Some, exp_fn = Some\<rparr>" 1]
  by (simp add: Context_init_def)

text \<open>
  Claim C3. For every operation, when forward returns a value that is not a float,
  \<open>apply\<close> raises the assertion error (ContractViolation) and the counter of
  identifiers stands where the loop over the arguments left it: no node was built from the
  result. When \<open>apply\<close> returns a node, forward returned a float, the node's payload. An
  operation whose forward returns an int, and one whose forward returns a tuple, make
  \<open>apply\<close> fail.
\<close>

theorem apply_checks_forward_result:
  "(forward cls (Context_init False) (map raw_value vals) = Inr (c, c1) \<and> \<not> is_float c
      \<longrightarrow> cls_apply cls vals vc = (Inl ContractViolation, vc + count_raw vals))
   \<and> (cls_apply cls vals vc = (Inr s, vc')
      \<longrightarrow> (\<exists>c2. forward cls (Context_init False) (map raw_value vals) = Inr (PFloat (data s), c2)))
   \<and> cls_apply \<lparr>forward = (\<lambda>c inps. Inr (PInt 1, c)), backward = (\<lambda>c d. Inr (PFloat d))\<rparr>
        [Raw 2] 0 = (Inl ContractViolation, 1)
   \<and> cls_apply \<lparr>forward = (\<lambda>c inps. Inr (PTuple [PFloat 1, PFloat 2], c)),
                 backward = (\<lambda>c d. Inr (PFloat d))\<rparr>
        [Raw 2] 0 = (Inl ContractViolation, 1)"
proof -
  have 1: "forward cls (Context_init False) (map raw_value vals) = Inr (c, c1) \<and> \<not> is_float c
      \<longrightarrow> cls_apply cls vals vc = (Inl ContractViolation, vc + count_raw vals)"
    by (cases c) (simp_all add: cls_apply_eq)
  have 2: "cls_apply cls vals vc = (Inr s, vc')
      \<longrightarrow> (\<exists>c2. forward cls (Context_init False) (map raw_value vals) = Inr (PFloat (data s), c2))"
    by (auto simp: cls_apply_eq split: sum.splits pyval.splits prod.splits)
  have 3: "cls_apply \<lparr>forward = (\<lambda>c inps. Inr (PInt 1, c)), backward = (\<lambda>c d. Inr (PFloat d))\<rparr>
        [Raw 2] 0 = (Inl ContractViolation, 1)"
    by (simp add: cls_apply_eq count_raw_def)
  have 4: "cls_apply \<lparr>forward = (\<lambda>c inps. Inr (PTuple [PFloat 1, PFloat 2], c)),
                 backward = (\<lambda>c d. Inr (PFloat d))\<rparr>
        [Raw 2] 0 = (Inl ContractViolation, 1)"
    by (simp add: cls_apply_eq count_raw_def)
  from 1 2 3 4 show ?thesis by blast
qed

theorem apply_checks_forward_result_witness:
  "forward \<lparr>forward = (\<lambda>c inps. Inr (PInt 1, c)), backward = (\<lambda>c d. Inr (PFloat d))\<rparr>
      (Context_init False) (map raw_value [Raw 2, Node (Scalar 4 3 None)])
     = Inr (PInt 1, Context_init False)
   \<and> \<not> is_float (PInt 1)
   \<and> cls_apply \<lparr>forward = (\<lambda>c inps. Inr (PInt 1, c)), backward = (\<lambda>c d. Inr (PFloat d))\<rparr>
        [Raw 2, Node (Scalar 4 3 None)] 4 = (Inl ContractViolation, 5)
   \<and> cls_apply Add [Raw 2, Node (Scalar 4 3 None)] 4
       = (Inr (Scalar 6 5 (Some (ScalarHistory Add (Context_init False)
                                   [Scalar 5 2 None, Scalar 4 3 None]))), 6)
   \<and> forward Add (Context_init False) (map raw_value [Raw 2, Node (Scalar 4 3 None)])
       = Inr (PFloat 5, Context_init False)"
  using apply_checks_forward_result
    [of "\<lparr>forward = (\<lambda>c inps. Inr (PInt 1, c)), backward = (\<lambda>c d. Inr (PFloat d))\<rparr>"
        "[Raw 2, Node (Scalar 4 3 None)]" "PInt 1" "Context_init False" 4]
    apply_checks_forward_result
    [of Add "[Raw 2, Node (Scalar 4 3 None)]" _ _ 4
        "Scalar 6 5 (Some (ScalarHistory Add (Context_init False)
                                   [Scalar 5 2 None, Scalar 4 3 None]))" 6]
  by (simp add: count_raw_def cls_apply_eq Add_def)

text \<open>
  Claim C5. For every operation and every sequence of raw numbers and existing nodes:
  when forward, called on a fresh context with the raw values of all arguments in call
  order, returns a float, \<open>apply\<close> returns a new node that wraps this float and whose
  history records the operation, the context as forward left it, and the operand nodes in
  call order. The operand of an existing node is the node itself; the operand of a raw
  number is a leaf without history holding that number, with a fresh identifier (the
  counter's value plus the number of raw arguments up to this one).
\<close>

theorem apply_builds_node:
  assumes "forward cls (Context_init False) (map raw_value vals) = Inr (PFloat x, c1)"
  shows "cls_apply cls vals vc =
           (Inr (Scalar (vc + count_raw vals + 1) x
                  (Some (ScalarHistory cls c1 (operand_nodes vals vc)))),
            vc + count_raw vals + 1)
         \<and> length (operand_nodes vals vc) = length vals
         \<and> (\<forall>i < length vals.
               case vals ! i of
                 Node s \<Rightarrow> operand_nodes vals vc ! i = s
               | Raw v \<Rightarrow>
                   operand_nodes vals vc ! i
                     = Scalar (vc + count_raw (take (Suc i) vals)) v None
                   \<and> vc < vc + count_raw (take (Suc i) vals)
                   \<and> vc + count_raw (take (Suc i) vals) \<le> vc + count_raw vals)"
proof -
  have 1: "cls_apply cls vals vc =
           (Inr (Scalar (vc + count_raw vals + 1) x
                  (Some (ScalarHistory cls c1 (operand_nodes vals vc)))),
            vc + count_raw vals + 1)"
    using assms by (simp add: cls_apply_eq)
  have 3: "case vals ! i of
                 Node s \<Rightarrow> operand_nodes vals vc ! i = s
               | Raw v \<Rightarrow>
                   operand_nodes vals vc ! i
                     = Scalar (vc + count_raw (take (Suc i) vals)) v None
                   \<and> vc < vc + count_raw (take (Suc i) vals)
                   \<and> vc + count_raw (take (Suc i) vals) \<le> vc + count_raw vals"
    if "i < length vals" for i
  proof (cases "vals ! i")
    case (Raw v)
    then have "is_Raw (vals ! i)" by simp
    from count_raw_take_bounds[OF that this] operand_nodes_nth[OF that, of vc] Raw
    show ?thesis by simp
  next
    case (Node s)
    with operand_nodes_nth[OF that, of vc] show ?thesis by simp
  qed
  from 1 3 show ?thesis by (simp add: length_operand_nodes)
qed

theorem apply_builds_node_witness:
  "forward Mul (Context_init False) (map raw_value [Raw 2, Node (Scalar 7 3 None), Raw 2])
     = Inl TypeError
   \<and> forward Mul (Context_init False) (map raw_value [Raw 2, Node (Scalar 7 3 None)])
     = Inr (PFloat 6, \<lparr>no_grad = False, saved_values = [2, 3]\<rparr>)
   \<and> cls_apply Mul [Raw 2, Node (Scalar 7 3 None)] 7
     = (Inr (Scalar 9 6 (Some (ScalarHistory Mul \<lparr>no_grad = False, saved_values = [2, 3]\<rparr>
                                 [Scalar 8 2 None, Scalar 7 3 None]))), 9)"
  using apply_builds_node [of Mul "[Raw 2, Node (Scalar 7 3 None)]" 6
      "\<lparr>no_grad = False, saved_values = [2, 3]\<rparr>" 7]
  by (simp add: Mul_def mul_def save_for_backward_def Context_init_def count_raw_def)

text \<open>
  Claim C4, as stated, fails: \<open>_backward\<close> compares no lengths. An operation with the
  two-operand forward of \<open>Add\<close> and a backward that returns a single value is applied to
  two operands, and \<open>_backward\<close> returns a one-element tuple without raising.
\<close>

theorem backward_arity_counterexample:
  "cls_apply \<lparr>forward = Add_forward, backward = (\<lambda>c d. Inr (PFloat d))\<rparr> [Raw 2, Raw 3] 0
     = (Inr (Scalar 3 5
          (Some (ScalarHistory \<lparr>forward = Add_forward, backward = (\<lambda>c d. Inr (PFloat d))\<rparr>
                   (Context_init False) [Scalar 1 2 None, Scalar 2 3 None]))), 3)
   \<and> cls_backward \<lparr>forward = Add_forward, backward = (\<lambda>c d. Inr (PFloat d))\<rparr>
        (Context_init False) 1 = Inr (PTuple [PFloat 1])
   \<and> length [PFloat 1] \<noteq> length [Raw 2, Raw 3]"
  by (simp add: cls_apply_eq count_raw_def cls_backward_def)

lemma forward_two:
  "Add_forward c0 inps = Inr r \<Longrightarrow> length inps = 2"
  "Mul_forward c0 inps = Inr r \<Longrightarrow> length inps = 2"
  "GT_forward c0 inps = Inr r \<Longrightarrow> length inps = 2"
  "LT_forward c0 inps = Inr r \<Longrightarrow> length inps = 2"
  "EQ_forward c0 inps = Inr r \<Longrightarrow> length inps = 2"
  by (cases "(c0, inps)" rule: Add_forward.cases; simp)+

lemma forward_one:
  "Neg_forward c0 inps = Inr r \<Longrightarrow> length inps = 1"
  "ReLU_forward c0 inps = Inr r \<Longrightarrow> length inps = 1"
  by (cases "(c0, inps)" rule: Neg_forward.cases; simp)+

lemma forward_one_ops:
  "Log_forward ops c0 inps = Inr r \<Longrightarrow> length inps = 1"
  "Inv_forward ops c0 inps = Inr r \<Longrightarrow> length inps = 1"
  "Sigmoid_forward ops c0 inps = Inr r \<Longrightarrow> length inps = 1"
  "Exp_forward ops c0 inps = Inr r \<Longrightarrow> length inps = 1"
  by (cases "(c0, inps)" rule: Neg_forward.cases; simp split: option.splits)+

lemma cls_backward_two:
  "cls_backward Add c d = Inr t \<Longrightarrow> \<exists>x y. t = PTuple [x, y]"
  "cls_backward Mul c d = Inr t \<Longrightarrow> \<exists>x y. t = PTuple [x, y]"
  "cls_backward GT c d = Inr t \<Longrightarrow> \<exists>x y. t = PTuple [x, y]"
  "cls_backward LT c d = Inr t \<Longrightarrow> \<exists>x y. t = PTuple [x, y]"
  "cls_backward EQ c d = Inr t \<Longrightarrow> \<exists>x y. t = PTuple [x, y]"
  by (auto simp: cls_backward_def catalogue_defs backward_defs split: list.splits sum.splits option.splits)

lemma cls_backward_one:
  "cls_backward Neg c d = Inr t \<Longrightarrow> \<exists>x. t = PTuple [x]"
  "cls_backward ReLU c d = Inr t \<Longrightarrow> \<exists>x. t = PTuple [x]"
  by (auto simp: cls_backward_def catalogue_defs backward_defs split: list.splits sum.splits option.splits)

lemma cls_backward_one_ops:
  "cls_backward (Log ops) c d = Inr t \<Longrightarrow> \<exists>x. t = PTuple [x]"
  "cls_backward (Inv ops) c d = Inr t \<Longrightarrow> \<exists>x. t = PTuple [x]"
  "cls_backward (Sigmoid ops) c d = Inr t \<Longrightarrow> \<exists>x. t = PTuple [x]"
  "cls_backward (Exp ops) c d = Inr t \<Longrightarrow> \<exists>x. t = PTuple [x]"
  by (auto simp: cls_backward_def catalogue_defs backward_defs split: list.splits sum.splits option.splits)

lemma catalogue_arity:
  assumes "cls \<in> set (catalogue ops)"
    and "forward cls c0 inps = Inr r"
    and "cls_backward cls c d = Inr t"
  shows "\<exists>xs. t = PTuple xs \<and> length xs = length inps"
proof -
  consider "cls \<in> {Add, Mul, GT, LT, EQ}"
    | "cls \<in> {Neg, ReLU, Log ops, Inv ops, Sigmoid ops, Exp ops}"
    using assms(1) by (auto simp: catalogue_def)
  then show ?thesis
  proof cases
    case 1
    then have "length inps = 2"
      using assms(2) forward_two[of c0 inps r] by (auto simp: catalogue_defs)
    moreover have "\<exists>x y. t = PTuple [x, y]"
      using 1 assms(3) cls_backward_two[of c d t] by auto
    ultimately show ?thesis by auto
  next
    case 2
    then have "length inps = 1"
      using assms(2) forward_one[of c0 inps r] forward_one_ops[of ops c0 inps r]
      by (auto simp: catalogue_defs)
    moreover have "\<exists>x. t = PTuple [x]"
      using 2 assms(3) cls_backward_one[of c d t] cls_backward_one_ops[of ops c d t] by auto
    ultimately show ?thesis by auto
  qed
qed

text \<open>
  Claim C4, amended. \<open>_backward\<close> normalises the result of the operation's backward into
  a tuple (a tuple unchanged, any other value as a one-element tuple), propagates its
  exception, and checks no arity. For each of the eleven operations of the catalogue,
  whenever forward accepts an operand list and \<open>_backward\<close> returns, it returns a tuple
  as long as the operand list.
\<close>

theorem backward_dispatch_normalizes:
  "cls_backward cls c d =
     (case backward cls c d of
        Inl e \<Rightarrow> Inl e
      | Inr r \<Rightarrow> Inr (if is_tuple r then r else PTuple [r]))
   \<and> (cls \<in> set (catalogue ops) \<and> forward cls c0 inps = Inr r0 \<and> cls_backward cls c d = Inr t
        \<longrightarrow> (\<exists>xs. t = PTuple xs \<and> length xs = length inps))"
proof -
  have "wrap_tuple r = (if is_tuple r then r else PTuple [r])" for r
    by (cases r) simp_all
  then have "cls_backward cls c d =
     (case backward cls c d of
        Inl e \<Rightarrow> Inl e
      | Inr r \<Rightarrow> Inr (if is_tuple r then r else PTuple [r]))"
    by (simp add: cls_backward_def split: sum.splits)
  with catalogue_arity[of cls ops c0 inps r0 c d t] show ?thesis by blast
qed

theorem backward_dispatch_normalizes_witness:
  "Mul \<in> set (catalogue \<lparr>log_fn = Some, log_back = (\<lambda>a d. Some d), inv_fn = Some,
                      inv_back = (\<lambda>a d. Some d), sigmoid = Some, exp_fn = Some\<rparr>)
   \<and> forward Mul (Context_init False) [2, 3]
       = Inr (PFloat 6, \<lparr>no_grad = False, saved_values = [2, 3]\<rparr>)
   \<and> cls_backward Mul \<lparr>no_grad = False, saved_values = [2, 3]\<rparr> 1
       = Inr (PTuple [PFloat 3, PFloat 2])
   \<and> length [PFloat 3, PFloat (2::real)] = length [2, 3::real]"
  using backward_dispatch_normalizes [of Mul "\<lparr>no_grad = False, saved_values = [2, 3]\<rparr>" 1
      "\<lparr>log_fn = Some, log_back = (\<lambda>a d. Some d), inv_fn = Some,
        inv_back = (\<lambda>a d. Some d), sigmoid = Some, exp_fn = Some\<rparr>"
      "Context_init False" "[2, 3]" "(PFloat 6, \<lparr>no_grad = False, saved_values = [2, 3]\<rparr>)"
      "PTuple [PFloat 3, PFloat 2]"]
  by (simp add: catalogue_def Mul_def Mul_backward_def cls_backward_def mul_def
      save_for_backward_def Context_init_def)

section \<open>Properties of the backward engine\<close>

lemma parents_simps [simp]:
  "parents (Scalar i v None) = []"
  "parents (Scalar i v (Some (ScalarHistory f c ps))) = ps"
  by (simp_all add: parents_def)

lemma self_in_nodes: "n \<in> set (nodes n)"
  by (induction n rule: nodes.induct) simp_all

lemma nodes_parent_closed:
  "m \<in> set (nodes n) \<Longrightarrow> p \<in> set (parents m) \<Longrightarrow> p \<in> set (nodes n)"
proof (induction n rule: nodes.induct)
  case (1 i v)
  then show ?case by simp
next
  case (2 i v f c ps)
  from 2(2) consider "m = Scalar i v (Some (ScalarHistory f c ps))"
    | q where "q \<in> set ps" "m \<in> set (nodes q)" by auto
  then show ?case
  proof cases
    case 1
    with 2(3) have "p \<in> set ps" by simp
    then show ?thesis using self_in_nodes[of p] by auto
  next
    case 2
    with "2.IH"[of q] "2.prems"(2) have "p \<in> set (nodes q)" by simp
    with 2(1) show ?thesis by auto
  qed
qed

lemma nodes_consumer:
  "m \<in> set (nodes n) \<Longrightarrow> m = n \<or> (\<exists>c \<in> set (nodes n). m \<in> set (parents c))"
proof (induction n rule: nodes.induct)
  case (1 i v)
  then show ?case by simp
next
  case (2 i v f c ps)
  let ?n = "Scalar i v (Some (ScalarHistory f c ps))"
  show ?case
  proof (cases "m = ?n")
    case True
    then show ?thesis by simp
  next
    case False
    with 2(2) obtain q where q: "q \<in> set ps" "m \<in> set (nodes q)" by auto
    from "2.IH"[OF q] have "m = q \<or> (\<exists>c \<in> set (nodes q). m \<in> set (parents c))" .
    then show ?thesis
    proof
      assume "m = q"
      with q(1) have "m \<in> set (parents ?n)" by simp
      then show ?thesis using self_in_nodes[of ?n] by blast
    next
      assume "\<exists>c \<in> set (nodes q). m \<in> set (parents c)"
      then obtain c' where "c' \<in> set (nodes q)" "m \<in> set (parents c')" by blast
      with q(1) have "c' \<in> set (nodes ?n)" by auto
      with \<open>m \<in> set (parents c')\<close> show ?thesis by blast
    qed
  qed
qed

lemma set_add_node: "set (add_node a acc) \<subseteq> insert a (set acc)"
  by (auto simp: add_node_def)

lemma set_fold_add_node:
  "set (fold add_node xs acc) \<subseteq> set acc \<union> set xs"
proof (induction xs arbitrary: acc)
  case Nil
  then show ?case by simp
next
  case (Cons a xs)
  have "set (fold add_node xs (add_node a acc)) \<subseteq> set (add_node a acc) \<union> set xs"
    by (rule Cons.IH)
  with set_add_node[of a acc] show ?case by auto
qed

lemma ids_add_node:
  "unique_id ` set (add_node a acc) = insert (unique_id a) (unique_id ` set acc)"
  by (auto simp: add_node_def)

lemma ids_fold_add_node:
  "unique_id ` set (fold add_node xs acc) = unique_id ` set acc \<union> unique_id ` set xs"
proof (induction xs arbitrary: acc)
  case Nil
  then show ?case by simp
next
  case (Cons a xs)
  have "unique_id ` set (fold add_node xs (add_node a acc))
          = unique_id ` set (add_node a acc) \<union> unique_id ` set xs"
    by (rule Cons.IH)
  then show ?case by (simp add: ids_add_node)
qed

lemma distinct_fold_add_node:
  "distinct (map unique_id acc) \<Longrightarrow> distinct (map unique_id (fold add_node xs acc))"
  by (induction xs arbitrary: acc) (auto simp: add_node_def)

lemma discover_ids: "unique_id ` set (discover v) = unique_id ` set (nodes v)"
  by (simp add: discover_def ids_fold_add_node)

lemma discover_subset: "set (discover v) \<subseteq> set (nodes v)"
  using set_fold_add_node[of "nodes v" "[]"] by (simp add: discover_def)

lemma discover_distinct: "distinct (map unique_id (discover v))"
  by (simp add: discover_def distinct_fold_add_node)

lemma discover_set:
  assumes "consistent v"
  shows "set (discover v) = set (nodes v)"
proof
  show "set (discover v) \<subseteq> set (nodes v)" by (rule discover_subset)
  show "set (nodes v) \<subseteq> set (discover v)"
  proof
    fix n assume n: "n \<in> set (nodes v)"
    then have "unique_id n \<in> unique_id ` set (discover v)" by (simp add: discover_ids)
    then obtain m where m: "m \<in> set (discover v)" "unique_id m = unique_id n" by auto
    with discover_subset have "m \<in> set (nodes v)" by blast
    with assms n m(2) have "m = n" unfolding consistent_def by metis
    with m(1) show "n \<in> set (discover v)" by simp
  qed
qed

lemma sort_descending_set: "set (sort_descending v) = set (discover v)"
  by (simp add: sort_descending_def)

lemma sort_descending_sorted: "sorted_wrt (\<lambda>a b. unique_id b < unique_id a) (sort_descending v)"
proof -
  let ?xs = "sort_key unique_id (discover v)"
  have "sorted (map unique_id ?xs)" by simp
  moreover have "distinct (map unique_id ?xs)"
    using discover_distinct[of v] by (simp add: distinct_map)
  ultimately have "sorted_wrt (<) (map unique_id ?xs)"
    by (simp add: strict_sorted_iff)
  then have "sorted_wrt (\<lambda>a b. unique_id a < unique_id b) ?xs"
    by (simp add: sorted_wrt_map)
  then show ?thesis
    by (simp add: sort_descending_def sorted_wrt_rev)
qed

lemma wsum_Cons: "wsum T buf (n # ns) = bufval buf (unique_id n) * T n + wsum T buf ns"
  by (simp add: wsum_def)

lemma wsum_remove:
  "i \<notin> unique_id ` set ns \<Longrightarrow> wsum T (buf(i := None)) ns = wsum T buf ns"
  by (induction ns) (auto simp: wsum_def bufval_def)

lemma wsum_other:
  "i \<notin> unique_id ` set ns \<Longrightarrow> wsum T (buf(i \<mapsto> y)) ns = wsum T buf ns"
  by (induction ns) (auto simp: wsum_def bufval_def)

lemma add_to_buffer_eq:
  "add_to_buffer (p, l) buf = buf(unique_id p \<mapsto> bufval buf (unique_id p) + l)"
  by (simp add: add_to_buffer_def bufval_def)

lemma wsum_add:
  assumes "distinct (map unique_id ns)" and "p \<in> set ns"
  shows "wsum T (add_to_buffer (p, l) buf) ns = wsum T buf ns + l * T p"
  using assms
proof (induction ns)
  case Nil
  then show ?case by simp
next
  case (Cons n ns)
  show ?case
  proof (cases "p = n")
    case True
    with Cons.prems have "unique_id p \<notin> unique_id ` set ns" by auto
    then have "wsum T (add_to_buffer (p, l) buf) ns = wsum T buf ns"
      unfolding add_to_buffer_eq by (rule wsum_other)
    moreover have "bufval (add_to_buffer (p, l) buf) (unique_id p) = bufval buf (unique_id p) + l"
      by (simp add: add_to_buffer_eq bufval_def)
    ultimately show ?thesis using True
      by (simp only: wsum_Cons) (simp add: algebra_simps)
  next
    case False
    with Cons.prems have p: "p \<in> set ns" and d: "distinct (map unique_id ns)" by auto
    from p Cons.prems(1) have "unique_id n \<noteq> unique_id p" by auto
    then have "bufval (add_to_buffer (p, l) buf) (unique_id n) = bufval buf (unique_id n)"
      by (simp add: add_to_buffer_eq bufval_def)
    with Cons.IH[OF d p] show ?thesis by (simp add: wsum_Cons)
  qed
qed

lemma wsum_fold:
  assumes "distinct (map unique_id ns)" and "fst ` set pls \<subseteq> set ns"
  shows "wsum T (fold add_to_buffer pls buf) ns
           = wsum T buf ns + (\<Sum>pl\<leftarrow>pls. snd pl * T (fst pl))"
  using assms(2)
proof (induction pls arbitrary: buf)
  case Nil
  then show ?case by simp
next
  case (Cons pl pls)
  obtain p l where pl: "pl = (p, l)" by (cases pl)
  with Cons.prems have p: "p \<in> set ns" and rest: "fst ` set pls \<subseteq> set ns" by auto
  have "wsum T (fold add_to_buffer pls (add_to_buffer (p, l) buf)) ns
          = wsum T (add_to_buffer (p, l) buf) ns + (\<Sum>pl\<leftarrow>pls. snd pl * T (fst pl))"
    by (rule Cons.IH[OF rest])
  with wsum_add[OF assms(1) p, of T l buf] pl show ?case by simp
qed

lemma dom_fold_add_to_buffer:
  "dom (fold add_to_buffer pls buf) = dom buf \<union> unique_id ` fst ` set pls"
proof (induction pls arbitrary: buf)
  case Nil
  then show ?case by simp
next
  case (Cons pl pls)
  have "dom (add_to_buffer pl buf) = insert (unique_id (fst pl)) (dom buf)"
    by (auto simp: add_to_buffer_def)
  with Cons.IH[of "add_to_buffer pl buf"] show ?case by auto
qed

lemma sum_zip_scale:
  "(\<Sum>pl\<leftarrow>zip ps (map (\<lambda>g. g * d) gs). snd pl * T (fst pl))
     = (d::real) * (\<Sum>pg\<leftarrow>zip ps gs. snd pg * T (fst pg))"
proof (induction ps arbitrary: gs)
  case Nil
  then show ?case by simp
next
  case (Cons p ps)
  then show ?case by (cases gs) (simp_all add: algebra_simps)
qed

lemma sorted_desc_head:
  assumes "sorted_wrt (\<lambda>a b. unique_id b < unique_id a) (n # ns)"
  shows "unique_id n \<notin> unique_id ` set ns" and "\<forall>m\<in>set ns. unique_id m < unique_id n"
    and "sorted_wrt (\<lambda>a b. unique_id b < unique_id a) ns"
  using assms by auto

lemma sorted_desc_distinct:
  "sorted_wrt (\<lambda>a b. unique_id b < unique_id a) ns \<Longrightarrow> distinct (map unique_id ns)"
  by (induction ns) auto

lemma propagate_correct:
  assumes "sorted_wrt (\<lambda>a b. unique_id b < unique_id a) ns"
    and "\<forall>n\<in>set ns. \<forall>p\<in>set (parents n). p \<in> set ns \<and> unique_id p < unique_id n"
    and "dom buf \<subseteq> unique_id ` set ns"
    and "\<forall>n\<in>set ns. step_ok T n"
    and "\<forall>n\<in>set ns. history n = None \<longrightarrow> T n = (if unique_id n = x then 1 else 0)"
    and "\<forall>m\<in>set ns. unique_id m \<in> dom buf \<or> (\<exists>c\<in>set ns. m \<in> set (parents c))"
  shows "\<exists>dv'. propagate ns buf dv = Inr dv'
           \<and> bufval dv' x = bufval dv x + wsum T buf ns
           \<and> ((dv x \<noteq> None \<or> (\<exists>n\<in>set ns. unique_id n = x \<and> history n = None))
                 \<longrightarrow> dv' x \<noteq> None)"
  using assms
proof (induction ns arbitrary: buf dv)
  case Nil
  then show ?case by (simp add: wsum_def)
next
  case (Cons n ns)
  note sorted = sorted_desc_head[OF Cons.prems(1)]
  have dist: "distinct (map unique_id ns)" by (rule sorted_desc_distinct[OF sorted(3)])
  have par: "\<forall>m\<in>set ns. \<forall>p\<in>set (parents m). p \<in> set ns \<and> unique_id p < unique_id m"
  proof (intro ballI)
    fix m p assume m: "m \<in> set ns" and p: "p \<in> set (parents m)"
    with Cons.prems(2) have a: "p \<in> set (n # ns)" "unique_id p < unique_id m" by auto
    with sorted(2) m have "unique_id p < unique_id n" by fastforce
    with a show "p \<in> set ns \<and> unique_id p < unique_id m" by auto
  qed
  have npar: "p \<in> set ns" if "p \<in> set (parents n)" for p
  proof -
    from that Cons.prems(2) have "p \<in> set (n # ns)" "unique_id p < unique_id n" by auto
    then show ?thesis by auto
  qed
  have head: "unique_id n \<in> dom buf"
  proof (rule ccontr)
    assume "unique_id n \<notin> dom buf"
    with Cons.prems(6) obtain c where c: "c \<in> set (n # ns)" "n \<in> set (parents c)" by auto
    with Cons.prems(2) have "unique_id n < unique_id c" by blast
    moreover from c(1) sorted(2) have "unique_id c \<le> unique_id n" by auto
    ultimately show False by simp
  qed
  then obtain d where d: "buf (unique_id n) = Some d" by auto
  then have bv: "bufval buf (unique_id n) = d" by (simp add: bufval_def)
  have stepT: "\<forall>m\<in>set ns. step_ok T m" using Cons.prems(4) by simp
  have leafT: "\<forall>m\<in>set ns. history m = None \<longrightarrow> T m = (if unique_id m = x then 1 else 0)"
    using Cons.prems(5) by simp
  show ?case
  proof (cases "history n")
    case None
    let ?buf = "buf(unique_id n := None)"
    let ?dv = "accumulate_derivative dv (unique_id n) d"
    have domb: "dom ?buf \<subseteq> unique_id ` set ns" using Cons.prems(3) by auto
    have J: "\<forall>m\<in>set ns. unique_id m \<in> dom ?buf \<or> (\<exists>c\<in>set ns. m \<in> set (parents c))"
    proof
      fix m assume m: "m \<in> set ns"
      with sorted(1) have ne: "unique_id m \<noteq> unique_id n" by (metis imageI)
      have "m \<in> set (n # ns)" using m by simp
      from bspec[OF Cons.prems(6) this]
      consider "unique_id m \<in> dom buf" | c where "c \<in> set (n # ns)" "m \<in> set (parents c)"
        by blast
      then show "unique_id m \<in> dom ?buf \<or> (\<exists>c\<in>set ns. m \<in> set (parents c))"
      proof cases
        case 1
        with ne show ?thesis by auto
      next
        case 2
        with None have "c \<noteq> n" by (auto simp: parents_def)
        with 2 show ?thesis by auto
      qed
    qed
    from Cons.IH[OF sorted(3) par domb stepT leafT J, of ?dv]
    obtain dv' where dv': "propagate ns ?buf ?dv = Inr dv'"
      "bufval dv' x = bufval ?dv x + wsum T ?buf ns"
      "(?dv x \<noteq> None \<or> (\<exists>n\<in>set ns. unique_id n = x \<and> history n = None)) \<longrightarrow> dv' x \<noteq> None"
      by blast
    have Tn: "T n = (if unique_id n = x then 1 else 0)" using Cons.prems(5) None by simp
    have acc: "bufval ?dv x = bufval dv x + d * T n"
      by (simp add: accumulate_derivative_def bufval_def Tn)
    have 1: "propagate (n # ns) buf dv = Inr dv'" using d None dv'(1) by simp
    have 2: "bufval dv' x = bufval dv x + wsum T buf (n # ns)"
      using dv'(2) acc bv by (simp add: wsum_Cons wsum_remove[OF sorted(1)])
    have 3: "dv' x \<noteq> None"
      if "dv x \<noteq> None \<or> (\<exists>m\<in>set (n # ns). unique_id m = x \<and> history m = None)"
    proof -
      from that have "?dv x \<noteq> None \<or> (\<exists>n\<in>set ns. unique_id n = x \<and> history n = None)"
        by (auto simp: accumulate_derivative_def)
      with dv'(3) show ?thesis by blast
    qed
    from 1 2 3 show ?thesis by blast
  next
    case (Some h)
    from Cons.prems(4) Some obtain gs where gs: "length gs = length (inputs h)"
      "\<forall>d. chain_rule h d = Inr (zip (inputs h) (map (\<lambda>g. g * d) gs))"
      "T n = (\<Sum>pg\<leftarrow>zip (inputs h) gs. snd pg * T (fst pg))"
      by (auto simp: step_ok_def)
    let ?pls = "zip (inputs h) (map (\<lambda>g. g * d) gs)"
    let ?buf = "fold add_to_buffer ?pls (buf(unique_id n := None))"
    have parh: "parents n = inputs h" using Some by (simp add: parents_def)
    have fst_pls: "fst ` set ?pls = set (inputs h)"
      using gs(1) by (metis length_map map_fst_zip set_map)
    have sub: "fst ` set ?pls \<subseteq> set ns" using fst_pls npar parh by auto
    have domb: "dom ?buf \<subseteq> unique_id ` set ns"
      using Cons.prems(3) sub by (auto simp: dom_fold_add_to_buffer)
    have J: "\<forall>m\<in>set ns. unique_id m \<in> dom ?buf \<or> (\<exists>c\<in>set ns. m \<in> set (parents c))"
    proof
      fix m assume m: "m \<in> set ns"
      with sorted(1) have ne: "unique_id m \<noteq> unique_id n" by (metis imageI)
      have "m \<in> set (n # ns)" using m by simp
      from bspec[OF Cons.prems(6) this]
      consider "unique_id m \<in> dom buf" | c where "c \<in> set (n # ns)" "m \<in> set (parents c)"
        by blast
      then show "unique_id m \<in> dom ?buf \<or> (\<exists>c\<in>set ns. m \<in> set (parents c))"
      proof cases
        case 1
        with ne show ?thesis by (auto simp: dom_fold_add_to_buffer)
      next
        case 2
        show ?thesis
        proof (cases "c = n")
          case True
          with 2 parh have "m \<in> fst ` set ?pls" using fst_pls by simp
          then show ?thesis by (auto simp: dom_fold_add_to_buffer)
        next
          case False
          with 2 show ?thesis by auto
        qed
      qed
    qed
    from Cons.IH[OF sorted(3) par domb stepT leafT J, of dv]
    obtain dv' where dv': "propagate ns ?buf dv = Inr dv'"
      "bufval dv' x = bufval dv x + wsum T ?buf ns"
      "(dv x \<noteq> None \<or> (\<exists>n\<in>set ns. unique_id n = x \<and> history n = None)) \<longrightarrow> dv' x \<noteq> None"
      by blast
    have 1: "propagate (n # ns) buf dv = Inr dv'" using d Some gs(2) dv'(1) by simp
    have "(\<Sum>pl\<leftarrow>?pls. snd pl * T (fst pl)) = d * (\<Sum>pg\<leftarrow>zip (inputs h) gs. snd pg * T (fst pg))"
      by (rule sum_zip_scale)
    then have "wsum T ?buf ns = wsum T buf ns + d * T n"
      using wsum_fold[OF dist sub, of T "buf(unique_id n := None)"] gs(3)
      by (simp add: wsum_remove[OF sorted(1)])
    then have 2: "bufval dv' x = bufval dv x + wsum T buf (n # ns)"
      using dv'(2) bv by (simp add: wsum_Cons)
    have 3: "dv' x \<noteq> None"
      if "dv x \<noteq> None \<or> (\<exists>m\<in>set (n # ns). unique_id m = x \<and> history m = None)"
      using that Some dv'(3) by auto
    from 1 2 3 show ?thesis by blast
  qed
qed

lemma as_numbers_floats: "as_numbers (map PFloat xs) = Inr xs"
  by (induction xs) simp_all

lemma sum_zip_swap:
  "(\<Sum>pg\<leftarrow>zip ps gs. snd pg * T (fst pg)) = (\<Sum>gc\<leftarrow>zip gs (map T ps). fst gc * (snd gc :: real))"
proof (induction ps arbitrary: gs)
  case Nil
  then show ?case by simp
next
  case (Cons p ps)
  then show ?case by (cases gs) simp_all
qed

lemma node_ok_step:
  assumes "node_ok n"
  shows "step_ok (tangent x) n"
proof (cases n)
  case (Scalar i v hist)
  show ?thesis
  proof (cases hist)
    case None
    with Scalar show ?thesis by (simp add: step_ok_def)
  next
    case (Some h)
    obtain f c ps where h: "h = ScalarHistory f c ps" by (cases h)
    let ?gs = "local_grads f c"
    from assms Scalar Some h have ng: "\<not> no_grad c"
      and dr: "derivative_rule f (map data ps) c ?gs"
      by (simp_all add: node_ok_def)
    from dr have len: "length ?gs = length ps"
      and bw: "\<And>d. cls_backward f c d = Inr (PTuple (map (\<lambda>g. PFloat (g * d)) ?gs))"
      by (simp_all add: derivative_rule_def)
    have "map (\<lambda>g. PFloat (g * d)) ?gs = map PFloat (map (\<lambda>g. g * d) ?gs)" for d
      by simp
    then have num: "as_numbers (map (\<lambda>g. PFloat (g * d)) ?gs) = Inr (map (\<lambda>g. g * d) ?gs)" for d
      by (simp only: as_numbers_floats)
    have cr: "chain_rule h d = Inr (zip (inputs h) (map (\<lambda>g. g * d) ?gs))" for d
      using ng len h by (simp add: chain_rule_def bw num)
    have T: "tangent x n = (\<Sum>pg\<leftarrow>zip (inputs h) ?gs. snd pg * tangent x (fst pg))"
      using Scalar Some h by (simp add: sum_zip_swap)
    from len cr T show ?thesis using Scalar Some h
      by (auto simp: step_ok_def intro!: exI[of _ ?gs])
  qed
qed

lemma wsum_single:
  assumes "distinct (map unique_id ns)" and "v \<in> set ns"
  shows "wsum T [unique_id v \<mapsto> d] ns = d * T v"
proof -
  have z: "wsum T Map.empty ns = 0" by (induction ns) (simp_all add: wsum_def bufval_def)
  have "add_to_buffer (v, d) Map.empty = [unique_id v \<mapsto> d]"
    by (simp add: add_to_buffer_def)
  with wsum_add[OF assms, of T d Map.empty] z show ?thesis by simp
qed

lemma backpropagate_tangent:
  assumes "consistent v" and "ordered v" and "\<forall>n\<in>set (nodes v). node_ok n"
    and "Scalar x v0 None \<in> set (nodes v)"
  shows "\<exists>dv'. backpropagate v deriv dv = Inr dv'
           \<and> dv' x = Some (bufval dv x + deriv * tangent x v)"
proof -
  let ?ns = "sort_descending v"
  let ?buf = "[unique_id v \<mapsto> deriv]"
  have set_ns: "set ?ns = set (nodes v)"
    using discover_set[OF assms(1)] by (simp add: sort_descending_set)
  have sorted: "sorted_wrt (\<lambda>a b. unique_id b < unique_id a) ?ns" by (rule sort_descending_sorted)
  have par: "\<forall>n\<in>set ?ns. \<forall>p\<in>set (parents n). p \<in> set ?ns \<and> unique_id p < unique_id n"
    using assms(2) nodes_parent_closed[of _ v] unfolding set_ns ordered_def by blast
  have domb: "dom ?buf \<subseteq> unique_id ` set ?ns"
    using self_in_nodes[of v] unfolding set_ns by simp
  have step: "\<forall>n\<in>set ?ns. step_ok (tangent x) n"
    using assms(3) node_ok_step unfolding set_ns by blast
  have leafT: "\<forall>n\<in>set ?ns. history n = None \<longrightarrow> tangent x n = (if unique_id n = x then 1 else 0)"
  proof (intro ballI impI)
    fix n assume "n \<in> set ?ns" "history n = None"
    from this(2) show "tangent x n = (if unique_id n = x then 1 else 0)" by (cases n) simp
  qed
  have J: "\<forall>m\<in>set ?ns. unique_id m \<in> dom ?buf \<or> (\<exists>c\<in>set ?ns. m \<in> set (parents c))"
    using nodes_consumer[of _ v] unfolding set_ns by auto
  from propagate_correct[OF sorted par domb step leafT J, of dv]
  obtain dv' where dv': "propagate ?ns ?buf dv = Inr dv'"
    "bufval dv' x = bufval dv x + wsum (tangent x) ?buf ?ns"
    "(dv x \<noteq> None \<or> (\<exists>n\<in>set ?ns. unique_id n = x \<and> history n = None)) \<longrightarrow> dv' x \<noteq> None"
    by blast
  have "\<exists>n\<in>set ?ns. unique_id n = x \<and> history n = None"
    using assms(4) unfolding set_ns by force
  with dv'(3) obtain g where g: "dv' x = Some g" by auto
  have "wsum (tangent x) ?buf ?ns = deriv * tangent x v"
    using wsum_single[OF sorted_desc_distinct[OF sorted], of v] self_in_nodes[of v]
    unfolding set_ns by simp
  with dv'(2) g have "dv' x = Some (bufval dv x + deriv * tangent x v)"
    by (simp add: bufval_def)
  with dv'(1) show ?thesis by (auto simp: backpropagate_def)
qed

lemma reval_deriv:
  assumes cons: "consistent v" and leaf: "Scalar x v0 None \<in> set (nodes v)"
    and ok: "\<forall>m\<in>set (nodes v). node_ok m"
  shows "n \<in> set (nodes v) \<Longrightarrow>
           reval x v0 n = data n
           \<and> ((\<lambda>t. reval x t n) has_real_derivative tangent x n) (at v0)"
proof (induction n rule: nodes.induct)
  case (1 i w)
  show ?case
  proof (cases "i = x")
    case True
    with 1 leaf cons have "Scalar i w None = Scalar x v0 None"
      unfolding consistent_def by (metis Scalar.sel(1))
    with True show ?thesis by simp
  next
    case False
    then show ?thesis by simp
  qed
next
  case (2 i w f c ps)
  let ?n = "Scalar i w (Some (ScalarHistory f c ps))"
  have inp: "p \<in> set (nodes v)" if "p \<in> set ps" for p
    using nodes_parent_closed[OF "2.prems", of p] that by simp
  have IH: "reval x v0 p = data p
      \<and> ((\<lambda>t. reval x t p) has_real_derivative tangent x p) (at v0)" if "p \<in> set ps" for p
    using "2.IH"[OF that inp[OF that]] .
  from ok "2.prems" have nk: "node_ok ?n" by blast
  then have fw: "forward f (Context_init False) (map data ps) = Inr (PFloat w, c)"
    and dr: "derivative_rule f (map data ps) c (local_grads f c)"
    by (simp_all add: node_ok_def)
  have eq: "map (reval x v0) ps = map data ps" using IH by simp
  have "reval x v0 ?n = result f (map data ps)" by (simp only: reval.simps eq)
  also have "\<dots> = w" by (simp add: result_def fw)
  finally have val: "reval x v0 ?n = w" .
  let ?cds = "map (\<lambda>p. (\<lambda>t. reval x t p, tangent x p)) ps"
  have pre: "length ?cds = length (map data ps)
          \<and> (\<forall>j<length (map data ps). fst (?cds ! j) v0 = map data ps ! j
                \<and> (fst (?cds ! j) has_real_derivative snd (?cds ! j)) (at v0))"
    using IH by simp
  from dr have "\<forall>cds t0.
          length cds = length (map data ps)
          \<and> (\<forall>j<length (map data ps). fst (cds ! j) t0 = map data ps ! j
                \<and> (fst (cds ! j) has_real_derivative snd (cds ! j)) (at t0))
          \<longrightarrow> ((\<lambda>t. result f (map (\<lambda>cd. fst cd t) cds))
                 has_real_derivative (\<Sum>gc\<leftarrow>zip (local_grads f c) (map snd cds). fst gc * snd gc)) (at t0)"
    unfolding derivative_rule_def by blast
  from this[rule_format, OF pre]
  have A: "((\<lambda>t. result f (map (\<lambda>cd. fst cd t) ?cds))
           has_real_derivative (\<Sum>gc\<leftarrow>zip (local_grads f c) (map snd ?cds). fst gc * snd gc)) (at v0)" .
  have B: "(\<lambda>t. result f (map (\<lambda>cd. fst cd t) ?cds)) = (\<lambda>t. reval x t ?n)"
    by (simp add: comp_def)
  have C: "map snd ?cds = map (tangent x) ps" by (simp add: comp_def)
  have D: "tangent x ?n = (\<Sum>gc\<leftarrow>zip (local_grads f c) (map (tangent x) ps). fst gc * snd gc)"
    by simp
  from A have "((\<lambda>t. reval x t ?n) has_real_derivative tangent x ?n) (at v0)"
    unfolding B C D[symmetric] .
  with val show ?case by simp
qed

lemma backpropagate_derivative:
  assumes "consistent v" and "ordered v" and "\<forall>n\<in>set (nodes v). node_ok n"
    and "Scalar x v0 None \<in> set (nodes v)"
  shows "\<exists>D dv'. backpropagate v deriv dv = Inr dv'
           \<and> dv' x = Some (bufval dv x + deriv * D)
           \<and> ((\<lambda>t. reval x t v) has_real_derivative D) (at v0)"
  using backpropagate_tangent[OF assms, of deriv dv]
    reval_deriv[OF assms(1,4,3) self_in_nodes[of v]]
  by blast

subsection \<open>The backward rules of Add, Mul and Neg are derivatives\<close>











lemma node_ok_leaf: "node_ok (Scalar i v None)"
  by (simp add: node_ok_def)




subsection \<open>Multiplication through the engine\<close>

lemmas engine_defs =
  backpropagate_def sort_descending_def discover_def add_node_def chain_rule_def
  cls_backward_def accumulate_derivative_def add_to_buffer_def

lemma apply_Mul_nodes:
  "cls_apply Mul [Node p, Node q] vc =
     (Inr (Scalar (vc + 1) (data p * data q)
        (Some (ScalarHistory Mul \<lparr>no_grad = False, saved_values = [data p, data q]\<rparr> [p, q]))),
      vc + 1)"
  by (simp add: cls_apply_eq count_raw_def Mul_def mul_def save_for_backward_def Context_init_def)


text \<open>
  Claim C2. \<open>Mul.forward\<close> returns \<open>a*b\<close> and saves \<open>(a, b)\<close>; \<open>Mul.backward\<close> with
  \<open>(a, b)\<close> saved returns the pair \<open>(b*d, a*d)\<close>, directly and through \<open>_backward\<close>.
  For the leaves \<open>a = 2.0\<close> and \<open>b = 3.0\<close>, \<open>c = Mul.apply(a, b)\<close> has the value 6.0, and
  the backward engine from \<open>c\<close> with seed 1.0 leaves 3.0 in the accumulator of \<open>a\<close> and
  2.0 in that of \<open>b\<close>.
\<close>

theorem Mul_forward_backward:
  "forward Mul c [a, b] = Inr (PFloat (a * b), save_for_backward c [a, b])
   \<and> forward Mul (Context_init False) [a, b]
       = Inr (PFloat (a * b), \<lparr>no_grad = False, saved_values = [a, b]\<rparr>)
   \<and> backward Mul (c\<lparr>saved_values := [a, b]\<rparr>) d = Inr (PTuple [PFloat (b * d), PFloat (a * d)])
   \<and> cls_backward Mul (c\<lparr>saved_values := [a, b]\<rparr>) d
       = Inr (PTuple [PFloat (b * d), PFloat (a * d)])
   \<and> new_Scalar 2 None 0 = (Scalar 1 2 None, 1)
   \<and> new_Scalar 3 None 1 = (Scalar 2 3 None, 2)
   \<and> cls_apply Mul [Node (Scalar 1 2 None), Node (Scalar 2 3 None)] 2
       = (Inr (Scalar 3 6
            (Some (ScalarHistory Mul \<lparr>no_grad = False, saved_values = [2, 3]\<rparr>
                     [Scalar 1 2 None, Scalar 2 3 None]))), 3)
   \<and> backpropagate
        (Scalar 3 6
            (Some (ScalarHistory Mul \<lparr>no_grad = False, saved_values = [2, 3]\<rparr>
                     [Scalar 1 2 None, Scalar 2 3 None])))
        1 Map.empty
       = Inr [2 \<mapsto> 2, 1 \<mapsto> 3]"
proof -
  have 1: "forward Mul c [a, b] = Inr (PFloat (a * b), save_for_backward c [a, b])"
    by (simp add: Mul_def mul_def)
  have 2: "forward Mul (Context_init False) [a, b]
       = Inr (PFloat (a * b), \<lparr>no_grad = False, saved_values = [a, b]\<rparr>)"
    by (simp add: Mul_def mul_def save_for_backward_def Context_init_def)
  have 3: "backward Mul (c\<lparr>saved_values := [a, b]\<rparr>) d
       = Inr (PTuple [PFloat (b * d), PFloat (a * d)])"
    by (simp add: Mul_def Mul_backward_def)
  have 4: "cls_backward Mul (c\<lparr>saved_values := [a, b]\<rparr>) d
       = Inr (PTuple [PFloat (b * d), PFloat (a * d)])"
    by (simp add: cls_backward_def 3)
  have 5: "new_Scalar 2 None 0 = (Scalar 1 2 None, 1)"
    and 6: "new_Scalar 3 None 1 = (Scalar 2 3 None, 2)"
    by (simp_all add: new_Scalar_def)
  have 7: "cls_apply Mul [Node (Scalar 1 2 None), Node (Scalar 2 3 None)] 2
       = (Inr (Scalar 3 6
            (Some (ScalarHistory Mul \<lparr>no_grad = False, saved_values = [2, 3]\<rparr>
                     [Scalar 1 2 None, Scalar 2 3 None]))), 3)"
    by (simp add: apply_Mul_nodes)
  have 8: "backpropagate
        (Scalar 3 6
            (Some (ScalarHistory Mul \<lparr>no_grad = False, saved_values = [2, 3]\<rparr>
                     [Scalar 1 2 None, Scalar 2 3 None])))
        1 Map.empty
       = Inr [2 \<mapsto> 2, 1 \<mapsto> 3]"
    by (simp add: engine_defs Mul_def Mul_backward_def)
  from 1 2 3 4 5 6 7 8 show ?thesis by blast
qed

subsection \<open>Gradient tracking of the nodes that apply builds\<close>

lemma forward_saves:
  assumes "cls \<in> set [Log ops, Mul, Inv ops, Neg, Sigmoid ops, ReLU, Exp ops, GT, LT, EQ]"
    and "forward cls c inps = Inr (y, c')"
  shows "c' = save_for_backward c inps"
proof -
  have one: "length inps = 1 \<Longrightarrow> \<exists>a. inps = [a]" by (cases inps) auto
  have two: "length inps = 2 \<Longrightarrow> \<exists>a b. inps = [a, b]" by (cases inps; cases "tl inps") auto
  consider "cls \<in> {Mul, GT, LT, EQ}"
    | "cls \<in> {Neg, ReLU, Log ops, Inv ops, Sigmoid ops, Exp ops}"
    using assms(1) by auto
  then show ?thesis
  proof cases
    case 1
    then have "length inps = 2"
      using assms(2) forward_two[of c inps "(y, c')"] by (auto simp: catalogue_defs)
    then obtain a b where "inps = [a, b]" using two by blast
    with 1 assms(2) show ?thesis by (auto simp: catalogue_defs)
  next
    case 2
    then have "length inps = 1"
      using assms(2) forward_one[of c inps "(y, c')"] forward_one_ops[of ops c inps "(y, c')"]
      by (auto simp: catalogue_defs)
    then obtain a where "inps = [a]" using one by blast
    with 2 assms(2) show ?thesis by (auto simp: catalogue_defs split: option.splits)
  qed
qed

lemma forward_Add_ctx: "forward Add c inps = Inr (y, c') \<Longrightarrow> c' = c"
  by (cases "(c, inps)" rule: Add_forward.cases) (simp_all add: Add_def)

lemma catalogue_split:
  "cls \<in> set (catalogue ops) \<longleftrightarrow>
     cls = Add \<or> cls \<in> set [Log ops, Mul, Inv ops, Neg, Sigmoid ops, ReLU, Exp ops, GT, LT, EQ]"
  by (auto simp: catalogue_def)

lemma no_grad_save: "no_grad (save_for_backward c vs) = no_grad c"
  by (simp add: save_for_backward_def)

lemma catalogue_forward_tracked:
  assumes "cls \<in> set (catalogue ops)" and "forward cls c inps = Inr (y, c')"
  shows "no_grad c' = no_grad c"
proof (cases "cls = Add")
  case True
  with assms(2) forward_Add_ctx[of c inps y c'] show ?thesis by simp
next
  case False
  with assms(1) have "cls \<in> set [Log ops, Mul, Inv ops, Neg, Sigmoid ops, ReLU, Exp ops, GT, LT, EQ]"
    unfolding catalogue_split by simp
  from forward_saves[OF this assms(2)] show ?thesis by (simp only: no_grad_save)
qed

lemma catalogue_backward_errors:
  assumes "cls \<in> set (catalogue ops)" and "cls_backward cls c d = Inl e"
  shows "e = OperatorError \<or> e = ValueError"
  using assms
  by (auto simp: catalogue_def catalogue_defs backward_defs cls_backward_def
      split: list.splits option.splits)

lemma catalogue_backward_saved:
  assumes "cls \<in> set (catalogue ops)" and "forward cls c0 inps = Inr r"
    and "saved_values c = inps \<or> cls = Add"
  shows "cls_backward cls c d \<noteq> Inl MissingSavedData"
proof -
  have one: "length inps = 1 \<Longrightarrow> \<exists>a. inps = [a]" by (cases inps) auto
  have two: "length inps = 2 \<Longrightarrow> \<exists>a b. inps = [a, b]" by (cases inps; cases "tl inps") auto
  consider "cls = Add" | "cls \<in> {Mul, GT, LT, EQ}"
    | "cls \<in> {Neg, ReLU, Log ops, Inv ops, Sigmoid ops, Exp ops}" "cls \<noteq> Add"
    using assms(1) by (auto simp: catalogue_def)
  then show ?thesis
  proof cases
    case 1
    then show ?thesis by (simp add: cls_backward_def Add_def Add_backward_def)
  next
    case 2
    show ?thesis
    proof (cases "cls = Add")
      case True
      then show ?thesis by (simp add: cls_backward_def Add_def Add_backward_def)
    next
      case False
      from 2 have "length inps = 2"
        using assms(2) forward_two[of c0 inps r] by (auto simp: catalogue_defs)
      then obtain a b where "inps = [a, b]" using two by blast
      with False assms(3) have "saved_values c = [a, b]" by simp
      with 2 show ?thesis
        by (auto simp: cls_backward_def catalogue_defs backward_defs)
    qed
  next
    case 3
    from 3(1) have "length inps = 1"
      using assms(2) forward_one[of c0 inps r] forward_one_ops[of ops c0 inps r]
      by (auto simp: catalogue_defs)
    then obtain a where "inps = [a]" using one by blast
    with 3(2) assms(3) have "saved_values c = [a]" by simp
    with 3(1) show ?thesis
      by (auto simp: cls_backward_def catalogue_defs backward_defs split: option.splits)
  qed
qed

lemma cls_apply_result:
  assumes "cls_apply cls vals vc = (Inr s, vc')"
  shows "\<exists>x c1. forward cls (Context_init False) (map raw_value vals) = Inr (PFloat x, c1)
           \<and> s = Scalar (vc + count_raw vals + 1) x
                   (Some (ScalarHistory cls c1 (operand_nodes vals vc)))
           \<and> vc' = vc + count_raw vals + 1"
  using assms by (auto simp: cls_apply_eq split: sum.splits pyval.splits prod.splits)

lemma operand_nodes_cases:
  "p \<in> set (operand_nodes vals vc) \<Longrightarrow> Node p \<in> set vals \<or> (\<exists>k w. p = Scalar k w None)"
  by (induction vals vc rule: operand_nodes.induct) auto

lemma chain_rule_tracked:
  assumes "\<not> no_grad (ctx h)"
    and "\<forall>d. cls_backward (last_fn h) (ctx h) d \<noteq> Inl UntrackedBackward"
  shows "chain_rule h d \<noteq> Inl UntrackedBackward"
proof -
  have num: "as_numbers ls \<noteq> Inl UntrackedBackward" for ls
  proof (induction ls)
    case Nil
    then show ?case by simp
  next
    case (Cons l ls)
    then show ?case by (cases l) (auto split: sum.splits)
  qed
  show ?thesis
    using assms num
    by (auto simp: chain_rule_def split: sum.splits pyval.splits if_splits)
qed

lemma propagate_tracked:
  "\<forall>n\<in>set ns. tracked_node n \<Longrightarrow> propagate ns buf dv \<noteq> Inl UntrackedBackward"
proof (induction ns arbitrary: buf dv)
  case Nil
  then show ?case by simp
next
  case (Cons n ns)
  then have IH: "propagate ns b d \<noteq> Inl UntrackedBackward" for b d by simp
  show ?case
  proof (cases "buf (unique_id n)")
    case None
    then show ?thesis using IH by simp
  next
    case (Some g)
    show ?thesis
    proof (cases "history n")
      case None
      with Some show ?thesis using IH by simp
    next
      case (Some h)
      with Cons.prems have "chain_rule h g \<noteq> Inl UntrackedBackward"
        using chain_rule_tracked[of h g] by (simp add: tracked_node_def)
      with Some \<open>buf (unique_id n) = Some g\<close> show ?thesis
        using IH by (auto split: sum.splits)
    qed
  qed
qed

lemma apply_built_tracked:
  assumes "apply_built ops v" and "n \<in> set (nodes v)"
  shows "tracked_node n"
proof (cases "history n")
  case None
  then show ?thesis by (simp add: tracked_node_def)
next
  case (Some h)
  with assms obtain vals vc vc' where cat: "last_fn h \<in> set (catalogue ops)"
    and ap: "cls_apply (last_fn h) vals vc = (Inr n, vc')"
    unfolding apply_built_def by fastforce
  from cls_apply_result[OF ap] obtain x c1 where
    fw: "forward (last_fn h) (Context_init False) (map raw_value vals) = Inr (PFloat x, c1)"
    and n: "n = Scalar (vc + count_raw vals + 1) x
                   (Some (ScalarHistory (last_fn h) c1 (operand_nodes vals vc)))"
    by blast
  from n Some have "h = ScalarHistory (last_fn h) c1 (operand_nodes vals vc)" by simp
  then have c1: "ctx h = c1" by (metis ScalarHistory.sel(2))
  from catalogue_forward_tracked[OF cat fw] have "\<not> no_grad c1"
    by (simp add: Context_init_def)
  moreover have "cls_backward (last_fn h) (ctx h) d \<noteq> Inl UntrackedBackward" for d
    using catalogue_backward_errors[OF cat, of "ctx h" d] by auto
  ultimately show ?thesis using Some c1 by (simp add: tracked_node_def)
qed

lemma backpropagate_tracked:
  assumes "apply_built ops v"
  shows "backpropagate v deriv dv \<noteq> Inl UntrackedBackward"
proof -
  have "set (sort_descending v) \<subseteq> set (nodes v)"
    using discover_subset[of v] by (simp add: sort_descending_set)
  then have "\<forall>n\<in>set (sort_descending v). tracked_node n"
    using apply_built_tracked[OF assms] by blast
  then show ?thesis unfolding backpropagate_def by (rule propagate_tracked)
qed

lemma apply_built_closed:
  assumes cat: "cls \<in> set (catalogue ops)"
    and ops: "\<forall>p. Node p \<in> set vals \<longrightarrow> apply_built ops p"
    and ap: "cls_apply cls vals vc = (Inr s, vc')"
  shows "apply_built ops s"
  unfolding apply_built_def
proof
  fix n assume n: "n \<in> set (nodes s)"
  from cls_apply_result[OF ap] obtain x c1 where
    s: "s = Scalar (vc + count_raw vals + 1) x
                   (Some (ScalarHistory cls c1 (operand_nodes vals vc)))"
    by blast
  from n s consider "n = s" | p where "p \<in> set (operand_nodes vals vc)" "n \<in> set (nodes p)"
    by auto
  then show "case history n of
          None \<Rightarrow> True
        | Some h \<Rightarrow>
            last_fn h \<in> set (catalogue ops)
            \<and> (\<exists>vals vc vc'. cls_apply (last_fn h) vals vc = (Inr n, vc'))"
  proof cases
    case 1
    with s cat ap show ?thesis by auto
  next
    case 2
    from operand_nodes_cases[OF 2(1)] show ?thesis
    proof
      assume "Node p \<in> set vals"
      with ops have "apply_built ops p" by blast
      with 2(2) show ?thesis unfolding apply_built_def by blast
    next
      assume "\<exists>k w. p = Scalar k w None"
      with 2(2) show ?thesis by auto
    qed
  qed
qed

text \<open>
  Claim C8. The context that \<open>apply\<close> creates has tracking on, so \<open>save\<close> on it stores
  its arguments, and the history of the node \<open>apply\<close> returns holds the context as
  forward left it. For each operation of the catalogue the context of the returned node
  still has tracking on, holds the raw operands when the operation saves them (all but
  \<open>Add\<close>), and the operation's backward on it does not raise MissingSavedData. A graph
  built by \<open>apply\<close> from the catalogue stays one when \<open>apply\<close> extends it, and the
  backward engine never raises UntrackedBackward on such a graph.
\<close>

theorem apply_tracks_gradients:
  "\<not> no_grad (Context_init False)
   \<and> save_for_backward (Context_init False) vs = \<lparr>no_grad = False, saved_values = vs\<rparr>
   \<and> (cls_apply cls vals vc = (Inr s, vc')
        \<longrightarrow> (\<exists>h x. history s = Some h \<and> last_fn h = cls
               \<and> forward cls (Context_init False) (map raw_value vals) = Inr (PFloat x, ctx h)))
   \<and> (cls \<in> set (catalogue ops) \<and> cls_apply cls vals vc = (Inr s, vc')
        \<longrightarrow> (\<exists>h. history s = Some h \<and> \<not> no_grad (ctx h)
               \<and> (cls \<in> set [Log ops, Mul, Inv ops, Neg, Sigmoid ops, ReLU, Exp ops, GT, LT, EQ]
                     \<longrightarrow> saved_values (ctx h) = map raw_value vals)
               \<and> (\<forall>d. cls_backward cls (ctx h) d \<noteq> Inl MissingSavedData)))
   \<and> (cls \<in> set (catalogue ops) \<and> (\<forall>p. Node p \<in> set vals \<longrightarrow> apply_built ops p)
        \<and> cls_apply cls vals vc = (Inr s, vc')
        \<longrightarrow> apply_built ops s)
   \<and> (apply_built ops v \<longrightarrow> backpropagate v deriv dv \<noteq> Inl UntrackedBackward)"
proof -
  have 1: "\<not> no_grad (Context_init False)" by (simp add: Context_init_def)
  have 2: "save_for_backward (Context_init False) vs = \<lparr>no_grad = False, saved_values = vs\<rparr>"
    by (simp add: save_for_backward_def Context_init_def)
  have 3: "\<exists>h x. history s = Some h \<and> last_fn h = cls
               \<and> forward cls (Context_init False) (map raw_value vals) = Inr (PFloat x, ctx h)"
    if "cls_apply cls vals vc = (Inr s, vc')"
    using cls_apply_result[OF that] by auto
  have 4: "\<exists>h. history s = Some h \<and> \<not> no_grad (ctx h)
               \<and> (cls \<in> set [Log ops, Mul, Inv ops, Neg, Sigmoid ops, ReLU, Exp ops, GT, LT, EQ]
                     \<longrightarrow> saved_values (ctx h) = map raw_value vals)
               \<and> (\<forall>d. cls_backward cls (ctx h) d \<noteq> Inl MissingSavedData)"
    if cat: "cls \<in> set (catalogue ops)" and ap: "cls_apply cls vals vc = (Inr s, vc')"
  proof -
    from cls_apply_result[OF ap] obtain x c1 where
      fw: "forward cls (Context_init False) (map raw_value vals) = Inr (PFloat x, c1)"
      and s: "s = Scalar (vc + count_raw vals + 1) x
                   (Some (ScalarHistory cls c1 (operand_nodes vals vc)))"
      by blast
    have ng: "\<not> no_grad c1"
      using catalogue_forward_tracked[OF cat fw] by (simp add: Context_init_def)
    have sv: "saved_values c1 = map raw_value vals"
      if "cls \<in> set [Log ops, Mul, Inv ops, Neg, Sigmoid ops, ReLU, Exp ops, GT, LT, EQ]"
      using forward_saves[OF that fw] by (simp add: save_for_backward_def Context_init_def)
    have "saved_values c1 = map raw_value vals \<or> cls = Add"
      using cat sv unfolding catalogue_split by blast
    from catalogue_backward_saved[OF cat fw this]
    have "\<forall>d. cls_backward cls c1 d \<noteq> Inl MissingSavedData" by blast
    with s ng sv show ?thesis by simp
  qed
  from 1 2 3 4 apply_built_closed[of cls ops vals vc s vc'] backpropagate_tracked[of ops v deriv dv]
  show ?thesis by blast
qed

theorem apply_tracks_gradients_witness:
  "Mul \<in> set (catalogue \<lparr>log_fn = Some, log_back = (\<lambda>a d. Some d), inv_fn = Some,
                      inv_back = (\<lambda>a d. Some d), sigmoid = Some, exp_fn = Some\<rparr>)
   \<and> apply_built \<lparr>log_fn = Some, log_back = (\<lambda>a d. Some d), inv_fn = Some,
                      inv_back = (\<lambda>a d. Some d), sigmoid = Some, exp_fn = Some\<rparr>
        (Scalar 1 2 None)
   \<and> cls_apply Mul [Node (Scalar 1 2 None), Raw 3] 1
       = (Inr (Scalar 3 6
            (Some (ScalarHistory Mul \<lparr>no_grad = False, saved_values = [2, 3]\<rparr>
                     [Scalar 1 2 None, Scalar 2 3 None]))), 3)
   \<and> forward Mul (Context_init False) (map raw_value [Node (Scalar 1 2 None), Raw 3])
       = Inr (PFloat 6, \<lparr>no_grad = False, saved_values = [2, 3]\<rparr>)
   \<and> cls_backward Mul \<lparr>no_grad = False, saved_values = [2, 3]\<rparr> 1
       = Inr (PTuple [PFloat 3, PFloat 2])
   \<and> apply_built \<lparr>log_fn = Some, log_back = (\<lambda>a d. Some d), inv_fn = Some,
                      inv_back = (\<lambda>a d. Some d), sigmoid = Some, exp_fn = Some\<rparr>
        (Scalar 3 6
            (Some (ScalarHistory Mul \<lparr>no_grad = False, saved_values = [2, 3]\<rparr>
                     [Scalar 1 2 None, Scalar 2 3 None])))
   \<and> backpropagate
        (Scalar 3 6
            (Some (ScalarHistory Mul \<lparr>no_grad = False, saved_values = [2, 3]\<rparr>
                     [Scalar 1 2 None, Scalar 2 3 None]))) 1 Map.empty
       \<noteq> Inl UntrackedBackward"
proof -
  let ?ops = "\<lparr>log_fn = Some, log_back = (\<lambda>a d. Some d), inv_fn = Some,
                      inv_back = (\<lambda>a d. Some d), sigmoid = Some, exp_fn = Some\<rparr>"
  let ?vals = "[Node (Scalar 1 2 None), Raw 3]"
  let ?s = "Scalar 3 6
            (Some (ScalarHistory Mul \<lparr>no_grad = False, saved_values = [2, 3]\<rparr>
                     [Scalar 1 2 None, Scalar 2 3 None]))"
  have cat: "Mul \<in> set (catalogue ?ops)" by (simp add: catalogue_def)
  have leaf: "apply_built ?ops (Scalar 1 2 None)" by (simp add: apply_built_def)
  have ap: "cls_apply Mul ?vals 1 = (Inr ?s, 3)"
    by (simp add: cls_apply_eq count_raw_def Mul_def mul_def save_for_backward_def
        Context_init_def)
  have fw: "forward Mul (Context_init False) (map raw_value ?vals)
       = Inr (PFloat 6, \<lparr>no_grad = False, saved_values = [2, 3]\<rparr>)"
    by (simp add: Mul_def mul_def save_for_backward_def Context_init_def)
  have bw: "cls_backward Mul \<lparr>no_grad = False, saved_values = [2, 3]\<rparr> 1
       = Inr (PTuple [PFloat 3, PFloat 2])"
    by (simp add: cls_backward_def Mul_def Mul_backward_def)
  have opsb: "\<forall>p. Node p \<in> set ?vals \<longrightarrow> apply_built ?ops p" using leaf by simp
  note inst = apply_tracks_gradients[where cls = Mul and vals = ?vals and vc = 1 and s = ?s
      and vc' = 3 and ops = ?ops and v = ?s and deriv = 1 and dv = Map.empty]
  from inst cat opsb ap have built: "apply_built ?ops ?s" by blast
  with inst have "backpropagate ?s 1 Map.empty \<noteq> Inl UntrackedBackward" by blast
  with cat leaf ap fw bw built show ?thesis by blast
qed

subsection \<open>The graphs that a program builds\<close>















end
